theory Spec2Isabelle
  imports Complex_Main "HOL-Library.Word"
begin

section \<open>Data model of \<open>xgboostpredictor.h\<close>\<close>

subsection \<open>Floats\<close>

text \<open>
  A \<open>float\<close> (and the one \<open>double\<close> of \<open>transformSoftmax\<close>) is a number, an infinity
  or NaN. Comparisons are those of IEEE 754: every comparison with NaN is false.
  Arithmetic on numbers is exact real arithmetic: rounding, overflow, underflow and the
  sign of zero are not modelled. The theorems below depend on the float type only through
  its comparisons and through the order in which the code applies its operations.
\<close>

datatype float = NaN | NegInf | Fin real | PosInf

instantiation float :: "{zero,one,plus,minus,uminus,inverse,ord}"
begin

definition zero_float :: float where
  "zero_float = Fin 0"

definition one_float :: float where
  "one_float = Fin 1"

fun less_float :: "float \<Rightarrow> float \<Rightarrow> bool" where
  "less_float NaN _ = False"
| "less_float _ NaN = False"
| "less_float _ NegInf = False"
| "less_float NegInf _ = True"
| "less_float PosInf _ = False"
| "less_float (Fin a) (Fin b) = (a < b)"
| "less_float (Fin a) PosInf = True"

fun less_eq_float :: "float \<Rightarrow> float \<Rightarrow> bool" where
  "less_eq_float NaN _ = False"
| "less_eq_float _ NaN = False"
| "less_eq_float NegInf _ = True"
| "less_eq_float _ PosInf = True"
| "less_eq_float (Fin a) (Fin b) = (a \<le> b)"
| "less_eq_float (Fin a) NegInf = False"
| "less_eq_float PosInf _ = False"

fun uminus_float :: "float \<Rightarrow> float" where
  "uminus_float NaN = NaN"
| "uminus_float NegInf = PosInf"
| "uminus_float (Fin a) = Fin (- a)"
| "uminus_float PosInf = NegInf"

fun plus_float :: "float \<Rightarrow> float \<Rightarrow> float" where
  "plus_float NaN _ = NaN"
| "plus_float _ NaN = NaN"
| "plus_float (Fin a) (Fin b) = Fin (a + b)"
| "plus_float NegInf PosInf = NaN"
| "plus_float PosInf NegInf = NaN"
| "plus_float NegInf _ = NegInf"
| "plus_float PosInf _ = PosInf"
| "plus_float (Fin a) b = b"

definition minus_float :: "float \<Rightarrow> float \<Rightarrow> float" where
  "minus_float a b = a + (- b)"

fun divide_float :: "float \<Rightarrow> float \<Rightarrow> float" where
  "divide_float NaN _ = NaN"
| "divide_float _ NaN = NaN"
| "divide_float (Fin a) (Fin b) =
     (if b = 0 then (if a = 0 then NaN else if 0 < a then PosInf else NegInf)
      else Fin (a / b))"
| "divide_float (Fin a) _ = Fin 0"
| "divide_float PosInf (Fin b) = (if b < 0 then NegInf else PosInf)"
| "divide_float NegInf (Fin b) = (if b < 0 then PosInf else NegInf)"
| "divide_float _ _ = NaN"

definition inverse_float :: "float \<Rightarrow> float" where
  "inverse_float a = Fin 1 div a"

instance ..

end

text \<open>\<open>expf\<close> and \<open>std::log\<close> of \<open><cmath>\<close>.\<close>

fun expf :: "float \<Rightarrow> float" where
  "expf NaN = NaN"
| "expf NegInf = Fin 0"
| "expf (Fin a) = Fin (exp a)"
| "expf PosInf = PosInf"

fun logf :: "float \<Rightarrow> float" where
  "logf NaN = NaN"
| "logf NegInf = NaN"
| "logf (Fin a) = (if a < 0 then NaN else if a = 0 then NegInf else Fin (ln a))"
| "logf PosInf = PosInf"

text \<open>\<open>std::numeric_limits<float>::min()\<close>: the smallest positive normalized float.\<close>

definition FLT_MIN :: float where
  "FLT_MIN = Fin (1 / 2 ^ 126)"

text \<open>\<open>std::max(a, b)\<close> is \<open>(a < b) ? b : a\<close>.\<close>

definition std_max :: "float \<Rightarrow> float \<Rightarrow> float" where
  "std_max a b = (if a < b then b else a)"

subsection \<open>Nodes, trees, predictors, the model\<close>

datatype Transformation = NONE | SIGMOID | SOFTMAX

text \<open>\<open>Data\<close>: a sparse feature vector, \<open>None\<close> for a missing feature.\<close>

type_synonym Data = "float option list"

text \<open>
  \<open>struct Node\<close>. The field \<open>value\<close> is \<open>node_value\<close> here. \<open>feature\<close> is an \<open>int\<close>,
  read with \<open>sint\<close>; \<open>yes\<close>, \<open>no\<close> and \<open>missing\<close> are \<open>unsigned int\<close>, read with \<open>unat\<close>.
\<close>

record Node =
  node_value :: float
  feature :: "32 word"
  yes :: "32 word"
  no :: "32 word"
  missing :: "32 word"

type_synonym Tree = "Node list"

type_synonym Predictor = "Tree list"

record Model =
  predictors :: "Predictor list"
  base_score :: float
  transformation :: Transformation

text \<open>
  The \<open>std::runtime_error\<close>s the code throws, one constructor for each message.
  \<open>OutOfBounds\<close> is not an exception: it stands for \<open>operator[]\<close> applied to an index
  past the end of a vector, which has undefined behaviour in C++.
\<close>

datatype error =
    IncompatibleModelSize nat
  | EmptyTree
  | IndexOutOfRange
  | CycleInTree
  | TreeInfoSize nat nat
  | TreeInfoGroup int
  | InvalidBaseScore float
  | OutOfBounds

section \<open>Transformations\<close>

definition transformSigmoid :: "float list \<Rightarrow> float list" where
  "transformSigmoid predictions = map (\<lambda>prediction. 1 / (1 + expf (- prediction))) predictions"

text \<open>The first loop of \<open>transformSoftmax\<close>: the running maximum.\<close>

definition softmax_max :: "float list \<Rightarrow> float" where
  "softmax_max predictions = foldl std_max FLT_MIN predictions"

text \<open>
  The second loop replaces every entry by \<open>expf(prediction - max)\<close> and adds the new entries
  up from \<open>0.0\<close>, in order; the third divides every entry by the sum.
\<close>

definition transformSoftmax :: "float list \<Rightarrow> float list" where
  "transformSoftmax predictions =
     (let max = softmax_max predictions;
          exps = map (\<lambda>prediction. expf (prediction - max)) predictions;
          sum = foldl (+) 0 exps
      in map (\<lambda>prediction. prediction / sum) exps)"

definition transform :: "float list \<Rightarrow> Transformation \<Rightarrow> float list" where
  "transform predictions transformation' =
     (if predictions = [] then predictions
      else if transformation' = SIGMOID then transformSigmoid predictions
      else if transformation' = SOFTMAX then transformSoftmax predictions
      else predictions)"

section \<open>Prediction\<close>

text \<open>
  \<open>predict(const Data&, const Tree&)\<close>: the \<open>while (true)\<close> loop at the current \<open>index\<close>.
  The loop has no bound, so the result is an option: \<open>None\<close> when the loop never returns.
  \<open>next_index\<close> is the assignment to \<open>index\<close> at a decision node; \<open>node.feature\<close> is
  not negative where it is converted to an index.
\<close>

definition next_index :: "Data \<Rightarrow> Node \<Rightarrow> 32 word" where
  "next_index data node =
     (if unat (feature node) < length data \<and> data ! unat (feature node) \<noteq> None
      then (if the (data ! unat (feature node)) < node_value node then yes node else no node)
      else missing node)"

partial_function (option) predict_tree_loop ::
  "Data \<Rightarrow> Tree \<Rightarrow> 32 word \<Rightarrow> (error + float) option" where
  "predict_tree_loop data tree index =
     (if length tree \<le> unat index then Some (Inl OutOfBounds)
      else let node = tree ! unat index in
        if sint (feature node) < 0 then Some (Inr (node_value node))
        else predict_tree_loop data tree (next_index data node))"

definition predict_tree :: "Data \<Rightarrow> Tree \<Rightarrow> (error + float) option" where
  "predict_tree data tree = predict_tree_loop data tree 0"

text \<open>The loop of \<open>predict(const Data&, const Predictor&)\<close>, with the running \<open>prediction\<close>.\<close>

fun predict_trees :: "Data \<Rightarrow> Tree list \<Rightarrow> float \<Rightarrow> (error + float) option" where
  "predict_trees data [] prediction = Some (Inr prediction)"
| "predict_trees data (tree # trees) prediction =
     (case predict_tree data tree of
        None \<Rightarrow> None
      | Some (Inl e) \<Rightarrow> Some (Inl e)
      | Some (Inr v) \<Rightarrow> predict_trees data trees (prediction + v))"

definition predict_predictor :: "Model \<Rightarrow> Data \<Rightarrow> Predictor \<Rightarrow> (error + float) option" where
  "predict_predictor m_model data predictor =
     (case predict_trees data predictor 0 of
        None \<Rightarrow> None
      | Some (Inl e) \<Rightarrow> Some (Inl e)
      | Some (Inr prediction) \<Rightarrow> Some (Inr (prediction + base_score m_model)))"

text \<open>A \<open>for\<close> loop that pushes one result for each element, stopping where a call fails.\<close>

fun collect :: "('a \<Rightarrow> (error + float) option) \<Rightarrow> 'a list \<Rightarrow> (error + float list) option" where
  "collect f [] = Some (Inr [])"
| "collect f (x # xs) =
     (case f x of
        None \<Rightarrow> None
      | Some (Inl e) \<Rightarrow> Some (Inl e)
      | Some (Inr v) \<Rightarrow>
          (case collect f xs of
             None \<Rightarrow> None
           | Some (Inl e) \<Rightarrow> Some (Inl e)
           | Some (Inr vs) \<Rightarrow> Some (Inr (v # vs))))"

text \<open>\<open>predict(const Data&, bool)\<close>.\<close>

definition predict :: "Model \<Rightarrow> Data \<Rightarrow> bool \<Rightarrow> (error + float list) option" where
  "predict m_model data outputMargin =
     (case collect (predict_predictor m_model data) (predictors m_model) of
        None \<Rightarrow> None
      | Some (Inl e) \<Rightarrow> Some (Inl e)
      | Some (Inr predictions) \<Rightarrow>
          Some (Inr (if \<not> outputMargin then transform predictions (transformation m_model)
                     else predictions)))"

text \<open>\<open>predict(const std::vector<Data>&, bool)\<close>.\<close>

definition predict_batch :: "Model \<Rightarrow> Data list \<Rightarrow> bool \<Rightarrow> (error + float list) option" where
  "predict_batch m_model data outputMargin =
     (if length (predictors m_model) \<noteq> 1
      then Some (Inl (IncompatibleModelSize (length (predictors m_model))))
      else
        (case collect (\<lambda>d. predict_predictor m_model d (hd (predictors m_model))) data of
           None \<Rightarrow> None
         | Some (Inl e) \<Rightarrow> Some (Inl e)
         | Some (Inr scores) \<Rightarrow>
             Some (Inr (if \<not> outputMargin then transform scores (transformation m_model)
                        else scores))))"

section \<open>Tree validation\<close>

text \<open>
  \<open>check(const Tree&, size_t, std::vector<bool>&)\<close>. The vector \<open>visited\<close> is passed by
  reference: the model returns it. Both \<open>tree[index]\<close> and \<open>visited[index]\<close> are unchecked.
\<close>

function check_rec :: "Tree \<Rightarrow> nat \<Rightarrow> bool list \<Rightarrow> error + bool list" where
  "check_rec tree index visited =
     (if length tree \<le> index then Inl OutOfBounds
      else let node = tree ! index in
        if 0 \<le> sint (feature node) then
          if length visited \<le> index then Inl OutOfBounds
          else if visited ! index then Inl CycleInTree
          else
            (case check_rec tree (unat (yes node)) (visited[index := True]) of
               Inl e \<Rightarrow> Inl e
             | Inr visited1 \<Rightarrow>
                (case (if no node \<noteq> yes node
                       then check_rec tree (unat (no node)) visited1
                       else Inr visited1) of
                   Inl e \<Rightarrow> Inl e
                 | Inr visited2 \<Rightarrow>
                     if missing node \<noteq> yes node \<and> missing node \<noteq> no node
                     then check_rec tree (unat (missing node)) visited2
                     else Inr visited2))
        else Inr visited)"
  by pat_completeness auto

text \<open>The number of unmarked entries: it bounds the depth of the recursion.\<close>

definition unvisited :: "bool list \<Rightarrow> nat" where
  "unvisited visited = length (filter Not visited)"

text \<open>The range loop of \<open>check(const Tree&)\<close> over the nodes, \<open>tree_size\<close> being \<open>tree.size()\<close>.\<close>

fun check_range :: "Node list \<Rightarrow> nat \<Rightarrow> error + unit" where
  "check_range [] tree_size = Inr ()"
| "check_range (node # nodes) tree_size =
     (if 0 \<le> sint (feature node) \<and>
         (tree_size < unat (yes node) \<or> tree_size < unat (no node)
          \<or> tree_size < unat (missing node))
      then Inl IndexOutOfRange
      else check_range nodes tree_size)"

text \<open>\<open>check(const Tree&)\<close>.\<close>

definition check :: "Tree \<Rightarrow> error + unit" where
  "check tree =
     (if tree = [] then Inl EmptyTree
      else
        (case check_range tree (length tree) of
           Inl e \<Rightarrow> Inl e
         | Inr _ \<Rightarrow>
             (case check_rec tree 0 (replicate (length tree) False) of
                Inl e \<Rightarrow> Inl e
              | Inr _ \<Rightarrow> Inr ())))"

section \<open>Loading: groups and base score\<close>

text \<open>
  The loop of \<open>parse\<close> that builds \<open>predictors\<close> from \<open>tree_info\<close> and the parsed trees
  (\<open>predictor\<close> in the source), at the tree \<open>tree_info[i]\<close>, \<open>predictor[i]\<close>. The entries of
  \<open>tree_info\<close> are \<open>int\<close>s; \<open>group + 1U\<close> is unsigned arithmetic. Memory is not
  bounded: \<open>resize\<close> always succeeds.
\<close>

fun build_predictors ::
  "32 word list \<Rightarrow> Tree list \<Rightarrow> Predictor list \<Rightarrow> error + Predictor list" where
  "build_predictors [] predictor predictors' = Inr predictors'"
| "build_predictors (group' # tree_info) [] predictors' = Inl OutOfBounds"
| "build_predictors (group' # tree_info) (tree # predictor) predictors' =
     (if sint group' < 0 then Inl (TreeInfoGroup (sint group'))
      else
        let resized =
              (if length predictors' < unat (group' + 1)
               then predictors' @ replicate (unat (group' + 1) - length predictors') []
               else predictors')
        in if length resized \<le> nat (sint group') then Inl OutOfBounds
           else build_predictors tree_info predictor
                  (resized[nat (sint group') := resized ! nat (sint group') @ [tree]]))"

text \<open>The size test of \<open>parse\<close> on \<open>tree_info\<close>, then the loop from no predictors.\<close>

definition group_trees :: "32 word list \<Rightarrow> Tree list \<Rightarrow> error + Predictor list" where
  "group_trees tree_info predictor =
     (if length tree_info \<noteq> length predictor
      then Inl (TreeInfoSize (length tree_info) (length predictor))
      else build_predictors tree_info predictor [])"

text \<open>The lambda \<open>transformBaseScore\<close> of \<open>parse\<close>, on the objective and the parsed base score.\<close>

definition transformBaseScore :: "string \<Rightarrow> float \<Rightarrow> error + float" where
  "transformBaseScore objective base_score' =
     (if objective = ''reg:logistic'' \<or> objective = ''binary:logistic''
         \<or> objective = ''binary:logitraw''
      then
        if base_score' \<le> 0 \<or> 1 \<le> base_score' then Inl (InvalidBaseScore base_score')
        else Inr (- logf (1 / base_score' - 1))
      else if objective = ''reg:gamma'' \<or> objective = ''reg:tweedie''
              \<or> objective = ''count:poisson'' \<or> objective = ''survival:aft''
              \<or> objective = ''survival:cox''
      then Inr (logf base_score')
      else Inr base_score')"

text \<open>The lambda \<open>transformation\<close> of \<open>parse\<close>.\<close>

definition objective_transformation :: "string \<Rightarrow> Transformation" where
  "objective_transformation objective =
     (if objective = ''multi:softprob'' then SOFTMAX
      else if objective = ''reg:logistic'' \<or> objective = ''binary:logistic'' then SIGMOID
      else NONE)"

text \<open>
  \<open>parse\<close> calls \<open>check\<close> on every tree before it builds the model, and \<open>m_model\<close> is
  never changed afterwards: every tree of a model has passed \<open>check\<close>.
\<close>

definition checked_model :: "Model \<Rightarrow> bool" where
  "checked_model m_model =
     list_all (\<lambda>predictor. list_all (\<lambda>tree. check tree = Inr ()) predictor) (predictors m_model)"

section \<open>Vocabulary of the statements\<close>

subsection \<open>Evaluation and grouping\<close>

text \<open>The loop, started at \<open>index\<close>, returns the value of a leaf of the tree.\<close>

definition reaches_leaf :: "Data \<Rightarrow> Tree \<Rightarrow> 32 word \<Rightarrow> bool" where
  "reaches_leaf data tree index \<longleftrightarrow>
     (\<exists>leaf < length tree. sint (feature (tree ! leaf)) < 0 \<and>
        predict_tree_loop data tree index = Some (Inr (node_value (tree ! leaf))))"

text \<open>The trees whose \<open>tree_info\<close> entry is \<open>g\<close>, in file order.\<close>

definition group_of :: "32 word list \<Rightarrow> Tree list \<Rightarrow> nat \<Rightarrow> Tree list" where
  "group_of tree_info predictor g =
     map snd (filter (\<lambda>(group', tree). nat (sint group') = g) (zip tree_info predictor))"

text \<open>Every child index of every decision node is strictly less than \<open>tree.size()\<close>.\<close>

definition in_bounds :: "Tree \<Rightarrow> bool" where
  "in_bounds tree \<longleftrightarrow>
     (\<forall>node\<in>set tree. 0 \<le> sint (feature node) \<longrightarrow>
        unat (yes node) < length tree \<and> unat (no node) < length tree
        \<and> unat (missing node) < length tree)"

subsection \<open>The walk of the validator, in the words of the specification\<close>

text \<open>
  The specification describes the cycle check as a depth-first walk with one set of marked
  indices: at a decision node that is marked the walk fails; otherwise it marks the node,
  walks into \<open>yes\<close>, into \<open>no\<close> only if \<open>no\<close> differs from \<open>yes\<close>, and into \<open>missing\<close> only if
  it differs from both; a leaf ends the walk without being marked. \<open>spec_walk\<close> is this
  description: it is written from the specification, not from the code, and relates a start
  index and the marked set to the outcome of the walk.
\<close>

datatype walk_result = Completed "nat set" | CycleDetected

inductive spec_walk :: "Tree \<Rightarrow> nat \<Rightarrow> nat set \<Rightarrow> walk_result \<Rightarrow> bool"
  for tree :: Tree where
  leaf:
    "index < length tree \<Longrightarrow> sint (feature (tree ! index)) < 0 \<Longrightarrow>
     spec_walk tree index marked (Completed marked)"
| revisit:
    "index < length tree \<Longrightarrow> 0 \<le> sint (feature (tree ! index)) \<Longrightarrow> index \<in> marked \<Longrightarrow>
     spec_walk tree index marked CycleDetected"
| cycle_yes:
    "index < length tree \<Longrightarrow> 0 \<le> sint (feature (tree ! index)) \<Longrightarrow> index \<notin> marked \<Longrightarrow>
     spec_walk tree (unat (yes (tree ! index))) (insert index marked) CycleDetected \<Longrightarrow>
     spec_walk tree index marked CycleDetected"
| cycle_no:
    "index < length tree \<Longrightarrow> 0 \<le> sint (feature (tree ! index)) \<Longrightarrow> index \<notin> marked \<Longrightarrow>
     spec_walk tree (unat (yes (tree ! index))) (insert index marked) (Completed marked1) \<Longrightarrow>
     no (tree ! index) \<noteq> yes (tree ! index) \<Longrightarrow>
     spec_walk tree (unat (no (tree ! index))) marked1 CycleDetected \<Longrightarrow>
     spec_walk tree index marked CycleDetected"
| cycle_missing:
    "index < length tree \<Longrightarrow> 0 \<le> sint (feature (tree ! index)) \<Longrightarrow> index \<notin> marked \<Longrightarrow>
     spec_walk tree (unat (yes (tree ! index))) (insert index marked) (Completed marked1) \<Longrightarrow>
     (no (tree ! index) \<noteq> yes (tree ! index)
        \<and> spec_walk tree (unat (no (tree ! index))) marked1 (Completed marked2))
     \<or> (no (tree ! index) = yes (tree ! index) \<and> marked2 = marked1) \<Longrightarrow>
     missing (tree ! index) \<noteq> yes (tree ! index) \<Longrightarrow>
     missing (tree ! index) \<noteq> no (tree ! index) \<Longrightarrow>
     spec_walk tree (unat (missing (tree ! index))) marked2 CycleDetected \<Longrightarrow>
     spec_walk tree index marked CycleDetected"
| completed:
    "index < length tree \<Longrightarrow> 0 \<le> sint (feature (tree ! index)) \<Longrightarrow> index \<notin> marked \<Longrightarrow>
     spec_walk tree (unat (yes (tree ! index))) (insert index marked) (Completed marked1) \<Longrightarrow>
     (no (tree ! index) \<noteq> yes (tree ! index)
        \<and> spec_walk tree (unat (no (tree ! index))) marked1 (Completed marked2))
     \<or> (no (tree ! index) = yes (tree ! index) \<and> marked2 = marked1) \<Longrightarrow>
     (missing (tree ! index) \<noteq> yes (tree ! index) \<and> missing (tree ! index) \<noteq> no (tree ! index)
        \<and> spec_walk tree (unat (missing (tree ! index))) marked2 (Completed marked3))
     \<or> ((missing (tree ! index) = yes (tree ! index) \<or> missing (tree ! index) = no (tree ! index))
        \<and> marked3 = marked2) \<Longrightarrow>
     spec_walk tree index marked (Completed marked3)"

text \<open>The marked indices of the vector \<open>visited\<close> of the code.\<close>

definition marks :: "bool list \<Rightarrow> nat set" where
  "marks visited = {j. j < length visited \<and> visited ! j}"

text \<open>
  The code refines an outcome of the walk: from every vector that holds the marked set,
  \<open>check_rec\<close> returns the vector of the resulting set, or throws the cycle error.
\<close>

definition refines :: "Tree \<Rightarrow> nat \<Rightarrow> nat set \<Rightarrow> walk_result \<Rightarrow> bool" where
  "refines tree index marked r \<longleftrightarrow>
     (\<forall>visited. marks visited = marked \<longrightarrow> length visited = length tree \<longrightarrow>
        (case r of
           Completed marked' \<Rightarrow>
             \<exists>visited'. check_rec tree index visited = Inr visited' \<and> marks visited' = marked'
                \<and> length visited' = length tree
         | CycleDetected \<Rightarrow> check_rec tree index visited = Inl CycleInTree))"

subsection \<open>The calls of the walk\<close>

text \<open>
  \<open>walk_reaches tree index marked j marked'\<close>: the walk started at \<open>index\<close> with the set
  \<open>marked\<close> makes a call at the index \<open>j\<close>, at a moment when the set \<open>marked'\<close> is marked.
  The call at \<open>index\<close> itself is one. From a decision node of the tree that is not marked
  the walk calls into \<open>yes\<close> with the node marked; into \<open>no\<close>, if \<open>no\<close> differs from \<open>yes\<close>,
  once the walk into \<open>yes\<close> has completed; and into \<open>missing\<close>, if it differs from both,
  once the walks before it have completed. A leaf, a marked decision node and an index
  past the end make no further call.
\<close>

inductive walk_reaches :: "Tree \<Rightarrow> nat \<Rightarrow> nat set \<Rightarrow> nat \<Rightarrow> nat set \<Rightarrow> bool"
  for tree :: Tree where
  here:
    "walk_reaches tree index marked index marked"
| via_yes:
    "index < length tree \<Longrightarrow> 0 \<le> sint (feature (tree ! index)) \<Longrightarrow> index \<notin> marked \<Longrightarrow>
     walk_reaches tree (unat (yes (tree ! index))) (insert index marked) j marked' \<Longrightarrow>
     walk_reaches tree index marked j marked'"
| via_no:
    "index < length tree \<Longrightarrow> 0 \<le> sint (feature (tree ! index)) \<Longrightarrow> index \<notin> marked \<Longrightarrow>
     spec_walk tree (unat (yes (tree ! index))) (insert index marked) (Completed marked1) \<Longrightarrow>
     no (tree ! index) \<noteq> yes (tree ! index) \<Longrightarrow>
     walk_reaches tree (unat (no (tree ! index))) marked1 j marked' \<Longrightarrow>
     walk_reaches tree index marked j marked'"
| via_missing:
    "index < length tree \<Longrightarrow> 0 \<le> sint (feature (tree ! index)) \<Longrightarrow> index \<notin> marked \<Longrightarrow>
     spec_walk tree (unat (yes (tree ! index))) (insert index marked) (Completed marked1) \<Longrightarrow>
     (no (tree ! index) \<noteq> yes (tree ! index)
        \<and> spec_walk tree (unat (no (tree ! index))) marked1 (Completed marked2))
     \<or> (no (tree ! index) = yes (tree ! index) \<and> marked2 = marked1) \<Longrightarrow>
     missing (tree ! index) \<noteq> yes (tree ! index) \<Longrightarrow>
     missing (tree ! index) \<noteq> no (tree ! index) \<Longrightarrow>
     walk_reaches tree (unat (missing (tree ! index))) marked2 j marked' \<Longrightarrow>
     walk_reaches tree index marked j marked'"

text \<open>
  What \<open>check_rec\<close> does when the walk makes a call at \<open>j\<close> with \<open>marked'\<close>: past the end
  it indexes out of bounds, at a marked decision node it throws the cycle error.
\<close>

definition stops_at :: "Tree \<Rightarrow> nat \<Rightarrow> nat set \<Rightarrow> nat \<Rightarrow> nat set \<Rightarrow> bool" where
  "stops_at tree index marked j marked' \<longleftrightarrow>
     (\<forall>visited. marks visited = marked \<longrightarrow> length visited = length tree \<longrightarrow>
        (length tree \<le> j \<longrightarrow> check_rec tree index visited = Inl OutOfBounds)
        \<and> (j < length tree \<and> 0 \<le> sint (feature (tree ! j)) \<and> j \<in> marked' \<longrightarrow>
             check_rec tree index visited = Inl CycleInTree))"

text \<open>The call at \<open>j\<close> with \<open>marked'\<close> is one at which \<open>check_rec\<close> fails with \<open>e\<close>.\<close>

definition failure_at :: "Tree \<Rightarrow> error \<Rightarrow> nat \<Rightarrow> nat set \<Rightarrow> bool" where
  "failure_at tree e j marked' \<longleftrightarrow>
     (e = OutOfBounds \<and> length tree \<le> j)
     \<or> (e = CycleInTree \<and> j < length tree \<and> 0 \<le> sint (feature (tree ! j)) \<and> j \<in> marked')"

subsection \<open>Child edges\<close>

text \<open>
  The edges from a decision node to its \<open>yes\<close>, \<open>no\<close> and \<open>missing\<close> indices, and trees in
  which no index that can be reached from \<open>index\<close> along them lies on a cycle.
\<close>

definition child_edges :: "Tree \<Rightarrow> (nat \<times> nat) set" where
  "child_edges tree =
     {(i, j). i < length tree \<and> 0 \<le> sint (feature (tree ! i))
        \<and> (j = unat (yes (tree ! i)) \<or> j = unat (no (tree ! i))
           \<or> j = unat (missing (tree ! i)))}"

definition cycle_free_from :: "Tree \<Rightarrow> nat \<Rightarrow> bool" where
  "cycle_free_from tree index \<longleftrightarrow>
     (\<forall>j. (index, j) \<in> (child_edges tree)\<^sup>* \<longrightarrow> (j, j) \<notin> (child_edges tree)\<^sup>+)"

section \<open>Termination of the cycle check\<close>

lemma unvisited_mark:
  "index < length visited \<Longrightarrow> \<not> visited ! index \<Longrightarrow>
   Suc (unvisited (visited[index := True])) = unvisited visited"
  unfolding unvisited_def
proof (induction visited arbitrary: index)
  case Nil
  then show ?case by simp
next
  case (Cons b bs)
  then show ?case by (cases index) auto
qed

lemma check_rec_unvisited_dom:
  assumes "check_rec_dom (tree, index, visited)"
      and "check_rec tree index visited = Inr visited'"
  shows "unvisited visited' \<le> unvisited visited"
  using assms
proof (induct arbitrary: visited' rule: check_rec.pinduct)
  case (1 tree index visited)
  show ?case
  proof (cases "0 \<le> sint (feature (tree ! index))")
    case False
    with 1(1,5) show ?thesis
      by (simp add: check_rec.psimps split: if_splits)
  next
    case dec: True
    let ?n = "tree ! index"
    from 1(1,5) dec have inb:
      "\<not> length tree \<le> index" "\<not> length visited \<le> index" "\<not> visited ! index"
      by (auto simp: check_rec.psimps Let_def split: if_splits)
    from 1(1,5) dec inb obtain v1 where
      v1: "check_rec tree (unat (yes ?n)) (visited[index := True]) = Inr v1"
      by (auto simp: check_rec.psimps Let_def split: sum.splits)
    from 1(1,5) dec inb v1 obtain v2 where
      v2: "(if no ?n \<noteq> yes ?n then check_rec tree (unat (no ?n)) v1 else Inr v1) = Inr v2"
      by (auto simp: check_rec.psimps Let_def split: sum.splits)
    from 1(1,5) dec inb v1 v2 have
      v3: "(if missing ?n \<noteq> yes ?n \<and> missing ?n \<noteq> no ?n
            then check_rec tree (unat (missing ?n)) v2 else Inr v2) = Inr visited'"
      by (simp add: check_rec.psimps Let_def)
    have s1: "unvisited v1 \<le> unvisited (visited[index := True])"
      using 1(2)[OF inb(1) refl dec inb(2,3) v1] .
    have s2: "unvisited v2 \<le> unvisited v1"
    proof (cases "no ?n \<noteq> yes ?n")
      case True
      with v2 have "check_rec tree (unat (no ?n)) v1 = Inr v2" by simp
      from 1(3)[OF inb(1) refl dec inb(2,3) v1 True this] show ?thesis .
    next
      case False
      with v2 show ?thesis by simp
    qed
    have s3: "unvisited visited' \<le> unvisited v2"
    proof (cases "missing ?n \<noteq> yes ?n \<and> missing ?n \<noteq> no ?n")
      case True
      with v3 have "check_rec tree (unat (missing ?n)) v2 = Inr visited'" by simp
      from 1(4)[OF inb(1) refl dec inb(2,3) v1 v2 True this] show ?thesis .
    next
      case False
      with v3 show ?thesis by auto
    qed
    from unvisited_mark[of index visited] inb
    have "unvisited (visited[index := True]) \<le> unvisited visited"
      by simp
    with s1 s2 s3 show ?thesis by simp
  qed
qed

termination check_rec
proof (relation "measure (\<lambda>(tree, index, visited). unvisited visited)", goal_cases)
  case 1
  show ?case by simp
next
  case (2 tree index visited x)
  then show ?case using unvisited_mark[of index visited] by simp
next
  case (3 tree index visited x b)
  then show ?case
    using unvisited_mark[of index visited]
      check_rec_unvisited_dom[of tree "unat (yes x)" "visited[index := True]" b]
    by simp
next
  case (4 tree index visited x b ba)
  have m: "unvisited (visited[index := True]) < unvisited visited"
    using 4 unvisited_mark[of index visited] by simp
  have s1: "unvisited b \<le> unvisited (visited[index := True])"
    using 4 check_rec_unvisited_dom[of tree "unat (yes x)" "visited[index := True]" b] by simp
  have s2: "unvisited ba \<le> unvisited b"
  proof (cases "no x \<noteq> yes x")
    case True
    with 4 show ?thesis
      using check_rec_unvisited_dom[of tree "unat (no x)" b ba] by simp
  next
    case False
    with 4 show ?thesis by simp
  qed
  from m s1 s2 show ?case by simp
qed

section \<open>The cycle check, unfolded\<close>

declare check_rec.simps [simp del]

lemma check_rec_leaf:
  "index < length tree \<Longrightarrow> sint (feature (tree ! index)) < 0 \<Longrightarrow>
   check_rec tree index visited = Inr visited"
  by (subst check_rec.simps) (simp add: Let_def)

lemma check_rec_past_end:
  "length tree \<le> index \<Longrightarrow> check_rec tree index visited = Inl OutOfBounds"
  by (subst check_rec.simps) simp

lemma check_rec_marked:
  "index < length tree \<Longrightarrow> 0 \<le> sint (feature (tree ! index)) \<Longrightarrow>
   index < length visited \<Longrightarrow> visited ! index \<Longrightarrow>
   check_rec tree index visited = Inl CycleInTree"
  by (subst check_rec.simps) (simp add: Let_def)

lemma check_rec_decision:
  "index < length tree \<Longrightarrow> 0 \<le> sint (feature (tree ! index)) \<Longrightarrow>
   index < length visited \<Longrightarrow> \<not> visited ! index \<Longrightarrow>
   check_rec tree index visited =
     (case check_rec tree (unat (yes (tree ! index))) (visited[index := True]) of
        Inl e \<Rightarrow> Inl e
      | Inr visited1 \<Rightarrow>
          (case (if no (tree ! index) \<noteq> yes (tree ! index)
                 then check_rec tree (unat (no (tree ! index))) visited1
                 else Inr visited1) of
             Inl e \<Rightarrow> Inl e
           | Inr visited2 \<Rightarrow>
               if missing (tree ! index) \<noteq> yes (tree ! index)
                  \<and> missing (tree ! index) \<noteq> no (tree ! index)
               then check_rec tree (unat (missing (tree ! index))) visited2
               else Inr visited2))"
  by (subst check_rec.simps) (simp add: Let_def)

lemma check_rec_InrE [consumes 1, case_names leaf decision]:
  assumes "check_rec tree index visited = Inr visited'"
  obtains
    (leaf) "index < length tree" "sint (feature (tree ! index)) < 0" "visited' = visited"
  | (decision) visited1 visited2 where
      "index < length tree" "0 \<le> sint (feature (tree ! index))"
      "index < length visited" "\<not> visited ! index"
      "check_rec tree (unat (yes (tree ! index))) (visited[index := True]) = Inr visited1"
      "(if no (tree ! index) \<noteq> yes (tree ! index)
        then check_rec tree (unat (no (tree ! index))) visited1
        else Inr visited1) = Inr visited2"
      "(if missing (tree ! index) \<noteq> yes (tree ! index)
           \<and> missing (tree ! index) \<noteq> no (tree ! index)
        then check_rec tree (unat (missing (tree ! index))) visited2
        else Inr visited2) = Inr visited'"
proof -
  from assms have inb: "index < length tree"
    by (subst (asm) check_rec.simps) (simp split: if_splits)
  show thesis
  proof (cases "0 \<le> sint (feature (tree ! index))")
    case False
    with inb assms have "visited' = visited"
      by (simp add: check_rec_leaf)
    with False inb show thesis by (intro leaf) auto
  next
    case True
    from assms inb True have v: "index < length visited" "\<not> visited ! index"
      by (subst (asm) check_rec.simps; simp add: Let_def split: if_splits)+
    note eq = assms[unfolded check_rec_decision[OF inb True v]]
    from eq obtain v1 where
      v1: "check_rec tree (unat (yes (tree ! index))) (visited[index := True]) = Inr v1"
      by (auto split: sum.splits)
    from eq v1 obtain v2 where
      v2: "(if no (tree ! index) \<noteq> yes (tree ! index)
        then check_rec tree (unat (no (tree ! index))) v1
        else Inr v1) = Inr v2"
      by (auto split: sum.splits)
    from eq v1 v2 have v3: "(if missing (tree ! index) \<noteq> yes (tree ! index)
           \<and> missing (tree ! index) \<noteq> no (tree ! index)
        then check_rec tree (unat (missing (tree ! index))) v2
        else Inr v2) = Inr visited'"
      by simp
    from inb True v v1 v2 v3 show thesis by (rule decision)
  qed
qed

lemma check_rec_error:
  "check_rec tree index visited = Inl e \<Longrightarrow> e = CycleInTree \<or> e = OutOfBounds"
proof (induction tree index visited rule: check_rec.induct)
  case (1 tree index visited)
  show ?case
  proof (cases "index < length tree \<and> 0 \<le> sint (feature (tree ! index))
                \<and> index < length visited \<and> \<not> visited ! index")
    case False
    with 1(4) show ?thesis
      by (subst (asm) check_rec.simps) (auto simp: Let_def split: if_splits)
  next
    case True
    then have c: "index < length tree" "0 \<le> sint (feature (tree ! index))"
                "index < length visited" "\<not> visited ! index" by auto
    note ih = 1(1-3)[OF _ refl c(2) _ c(4)]
    from 1(4) show ?thesis
      unfolding check_rec_decision[OF c]
      using ih c
      by (auto split: sum.splits if_splits)
  qed
qed

section \<open>The range check of the validator\<close>

lemma check_range_Inl:
  "check_range nodes n = Inl e \<longleftrightarrow>
   e = IndexOutOfRange \<and>
   (\<exists>node\<in>set nodes. 0 \<le> sint (feature node) \<and>
      (n < unat (yes node) \<or> n < unat (no node) \<or> n < unat (missing node)))"
  by (induction nodes) auto

text \<open>
  Claim C3. \<open>check\<close> throws "tree yes/no/missing index out of range" if and only if some
  decision node of the tree has a \<open>yes\<close>, \<open>no\<close> or \<open>missing\<close> index strictly greater than
  \<open>tree.size()\<close>. In particular, when every such index is at most \<open>tree.size()\<close>, an index
  equal to \<open>tree.size()\<close> included, the range check does not throw.
\<close>

theorem check_index_range:
  "(check tree = Inl IndexOutOfRange \<longleftrightarrow>
      (\<exists>node\<in>set tree. 0 \<le> sint (feature node) \<and>
         (length tree < unat (yes node) \<or> length tree < unat (no node)
          \<or> length tree < unat (missing node))))
   \<and> ((\<forall>node\<in>set tree. 0 \<le> sint (feature node) \<longrightarrow>
          unat (yes node) \<le> length tree \<and> unat (no node) \<le> length tree
          \<and> unat (missing node) \<le> length tree)
        \<longrightarrow> check tree \<noteq> Inl IndexOutOfRange)"
proof -
  let ?bad = "\<exists>node\<in>set tree. 0 \<le> sint (feature node) \<and>
         (length tree < unat (yes node) \<or> length tree < unat (no node)
          \<or> length tree < unat (missing node))"
  have iff: "check tree = Inl IndexOutOfRange \<longleftrightarrow> ?bad"
  proof
    assume a: "check tree = Inl IndexOutOfRange"
    show ?bad
    proof (cases "check_range tree (length tree)")
      case (Inl e)
      then show ?thesis by (simp add: check_range_Inl)
    next
      case (Inr u)
      with a have "tree \<noteq> []" by (auto simp: check_def)
      with a Inr have
        "\<exists>e. check_rec tree 0 (replicate (length tree) False) = Inl e \<and> e = IndexOutOfRange"
        by (auto simp: check_def split: sum.splits)
      then show ?thesis using check_rec_error by blast
    qed
  next
    assume b: ?bad
    then have ne: "tree \<noteq> []" by auto
    from b have "check_range tree (length tree) = Inl IndexOutOfRange"
      by (simp add: check_range_Inl)
    with ne show "check tree = Inl IndexOutOfRange" by (simp add: check_def)
  qed
  moreover have "(\<forall>node\<in>set tree. 0 \<le> sint (feature node) \<longrightarrow>
          unat (yes node) \<le> length tree \<and> unat (no node) \<le> length tree
          \<and> unat (missing node) \<le> length tree) \<longrightarrow> \<not> ?bad"
    by (auto simp: not_less)
  ultimately show ?thesis by blast
qed

text \<open>
  A one-node tree whose \<open>yes\<close> index is 2 is rejected by the range check; the same tree
  with all three indices equal to 1, its size, is not.
\<close>

theorem check_index_range_witness:
  "check [\<lparr>node_value = Fin 0, feature = 0, yes = 2, no = 1, missing = 1\<rparr>]
     = Inl IndexOutOfRange
   \<and> check [\<lparr>node_value = Fin 0, feature = 0, yes = 1, no = 1, missing = 1\<rparr>]
     \<noteq> Inl IndexOutOfRange"
  using check_index_range[of "[\<lparr>node_value = Fin 0, feature = 0, yes = 2, no = 1, missing = 1\<rparr>]"]
    check_index_range[of "[\<lparr>node_value = Fin 0, feature = 0, yes = 1, no = 1, missing = 1\<rparr>]"]
  by simp

section \<open>Machine integers\<close>

lemma sint_nonneg_uint:
  fixes w :: "32 word"
  assumes "0 \<le> sint w"
  shows "uint w = sint w" and "sint w < 2147483648"
proof -
  show lt: "sint w < 2147483648" using sint_lt[of w] by simp
  then have "sint w < 2 ^ 32" by simp
  with assms have "take_bit 32 (sint w) = sint w"
    by (simp add: take_bit_int_eq_self)
  with uint_sint[of w] show "uint w = sint w" by simp
qed

lemma unat_nonneg:
  fixes w :: "32 word"
  shows "0 \<le> sint w \<Longrightarrow> unat w = nat (sint w)"
  using sint_nonneg_uint(1)[of w] by (metis nat_uint_eq)

lemma unat_succ:
  fixes w :: "32 word"
  assumes "0 \<le> sint w"
  shows "unat (w + 1) = Suc (unat w)"
proof -
  from assms have "unat w = nat (sint w)" by (rule unat_nonneg)
  moreover from assms have "nat (sint w) < 2147483648"
    using sint_nonneg_uint(2)[of w] by linarith
  ultimately have "unat w + 1 < 4294967296" by linarith
  then have "(unat w + 1) mod 4294967296 = unat w + 1" by (rule mod_less)
  then show ?thesis by (simp add: unat_word_ariths)
qed

section \<open>Tree evaluation\<close>

lemma predict_tree_loop_past_end:
  "length tree \<le> unat index \<Longrightarrow> predict_tree_loop data tree index = Some (Inl OutOfBounds)"
  by (subst predict_tree_loop.simps) simp

lemma predict_tree_loop_leaf:
  "unat index < length tree \<Longrightarrow> sint (feature (tree ! unat index)) < 0 \<Longrightarrow>
   predict_tree_loop data tree index = Some (Inr (node_value (tree ! unat index)))"
  by (subst predict_tree_loop.simps) (simp add: Let_def)

lemma predict_tree_loop_decision:
  "unat index < length tree \<Longrightarrow> 0 \<le> sint (feature (tree ! unat index)) \<Longrightarrow>
   predict_tree_loop data tree index =
   predict_tree_loop data tree (next_index data (tree ! unat index))"
  by (subst predict_tree_loop.simps) (simp add: Let_def)

lemma next_index_cases:
  "next_index data node = yes node \<or> next_index data node = no node
   \<or> next_index data node = missing node"
  by (simp add: next_index_def)

text \<open>
  Claim C2. At a decision node the evaluation goes on from the \<open>yes\<close> child when the
  feature index is within the vector, the slot holds a value and the value is strictly
  less than the node's threshold; from the \<open>no\<close> child when the slot holds a value that
  is not strictly less; and from the \<open>missing\<close> child when the feature index is out of the
  vector's range or the slot is missing. From a leaf the evaluation returns the value of
  the leaf. So when the three children are leaves with three different values, the
  evaluation returns the value of the \<open>yes\<close> leaf exactly under the first condition, that
  of the \<open>no\<close> leaf exactly under the second, and that of the \<open>missing\<close> leaf exactly under
  the third.
\<close>

theorem predict_tree_branch:
  assumes "unat index < length tree"
    and "0 \<le> sint (feature (tree ! unat index))"
    and "node = tree ! unat index"
    and "f = nat (sint (feature node))"
  shows "(f < length data \<and> (\<exists>v. data ! f = Some v \<and> v < node_value node)
          \<longrightarrow> predict_tree_loop data tree index = predict_tree_loop data tree (yes node))
    \<and> (f < length data \<and> (\<exists>v. data ! f = Some v \<and> \<not> v < node_value node)
          \<longrightarrow> predict_tree_loop data tree index = predict_tree_loop data tree (no node))
    \<and> (length data \<le> f \<or> data ! f = None
          \<longrightarrow> predict_tree_loop data tree index = predict_tree_loop data tree (missing node))
    \<and> (\<forall>child. unat child < length tree \<and> sint (feature (tree ! unat child)) < 0 \<longrightarrow>
          predict_tree_loop data tree child = Some (Inr (node_value (tree ! unat child))))
    \<and> (unat (yes node) < length tree \<and> sint (feature (tree ! unat (yes node))) < 0
        \<and> unat (no node) < length tree \<and> sint (feature (tree ! unat (no node))) < 0
        \<and> unat (missing node) < length tree \<and> sint (feature (tree ! unat (missing node))) < 0
        \<and> node_value (tree ! unat (yes node)) \<noteq> node_value (tree ! unat (no node))
        \<and> node_value (tree ! unat (yes node)) \<noteq> node_value (tree ! unat (missing node))
        \<and> node_value (tree ! unat (no node)) \<noteq> node_value (tree ! unat (missing node))
        \<longrightarrow>
          (predict_tree_loop data tree index = Some (Inr (node_value (tree ! unat (yes node))))
             \<longleftrightarrow> f < length data \<and> (\<exists>v. data ! f = Some v \<and> v < node_value node))
        \<and> (predict_tree_loop data tree index = Some (Inr (node_value (tree ! unat (no node))))
             \<longleftrightarrow> f < length data \<and> (\<exists>v. data ! f = Some v \<and> \<not> v < node_value node))
        \<and> (predict_tree_loop data tree index = Some (Inr (node_value (tree ! unat (missing node))))
             \<longleftrightarrow> length data \<le> f \<or> data ! f = None))"
proof -
  let ?loop = "predict_tree_loop data tree"
  define A where "A \<longleftrightarrow> f < length data \<and> (\<exists>v. data ! f = Some v \<and> v < node_value node)"
  define B where "B \<longleftrightarrow> f < length data \<and> (\<exists>v. data ! f = Some v \<and> \<not> v < node_value node)"
  define C where "C \<longleftrightarrow> length data \<le> f \<or> data ! f = None"
  from assms have f: "unat (feature node) = f"
    by (simp add: unat_nonneg)
  have step: "?loop index = ?loop (next_index data node)"
    using predict_tree_loop_decision[OF assms(1,2)] assms(3) by simp
  have a: "A \<longrightarrow> ?loop index = ?loop (yes node)"
    unfolding step A_def by (auto simp: next_index_def f)
  have b: "B \<longrightarrow> ?loop index = ?loop (no node)"
    unfolding step B_def by (auto simp: next_index_def f)
  have c: "C \<longrightarrow> ?loop index = ?loop (missing node)"
    unfolding step C_def by (auto simp: next_index_def f)
  have l: "\<forall>child. unat child < length tree \<and> sint (feature (tree ! unat child)) < 0 \<longrightarrow>
          ?loop child = Some (Inr (node_value (tree ! unat child)))"
    by (simp add: predict_tree_loop_leaf)
  have one: "(A \<and> \<not> B \<and> \<not> C) \<or> (\<not> A \<and> B \<and> \<not> C) \<or> (\<not> A \<and> \<not> B \<and> C)"
    unfolding A_def B_def C_def by (cases "data ! f") auto
  have e: "(?loop index = Some (Inr (node_value (tree ! unat (yes node)))) \<longleftrightarrow> A)
        \<and> (?loop index = Some (Inr (node_value (tree ! unat (no node)))) \<longleftrightarrow> B)
        \<and> (?loop index = Some (Inr (node_value (tree ! unat (missing node)))) \<longleftrightarrow> C)"
    if lv: "unat (yes node) < length tree" "sint (feature (tree ! unat (yes node))) < 0"
        "unat (no node) < length tree" "sint (feature (tree ! unat (no node))) < 0"
        "unat (missing node) < length tree" "sint (feature (tree ! unat (missing node))) < 0"
      and d: "node_value (tree ! unat (yes node)) \<noteq> node_value (tree ! unat (no node))"
        "node_value (tree ! unat (yes node)) \<noteq> node_value (tree ! unat (missing node))"
        "node_value (tree ! unat (no node)) \<noteq> node_value (tree ! unat (missing node))"
  proof -
    have y: "?loop (yes node) = Some (Inr (node_value (tree ! unat (yes node))))"
      using lv(1,2) by (rule predict_tree_loop_leaf)
    have n: "?loop (no node) = Some (Inr (node_value (tree ! unat (no node))))"
      using lv(3,4) by (rule predict_tree_loop_leaf)
    have m: "?loop (missing node) = Some (Inr (node_value (tree ! unat (missing node))))"
      using lv(5,6) by (rule predict_tree_loop_leaf)
    from one consider (A) "A" "\<not> B" "\<not> C" | (B) "\<not> A" "B" "\<not> C" | (C) "\<not> A" "\<not> B" "C"
      by blast
    then show ?thesis
    proof cases
      case A
      with a y d show ?thesis by simp
    next
      case B
      with b n d show ?thesis by simp
    next
      case C
      with c m d show ?thesis by simp
    qed
  qed
  have e': "unat (yes node) < length tree \<and> sint (feature (tree ! unat (yes node))) < 0
        \<and> unat (no node) < length tree \<and> sint (feature (tree ! unat (no node))) < 0
        \<and> unat (missing node) < length tree \<and> sint (feature (tree ! unat (missing node))) < 0
        \<and> node_value (tree ! unat (yes node)) \<noteq> node_value (tree ! unat (no node))
        \<and> node_value (tree ! unat (yes node)) \<noteq> node_value (tree ! unat (missing node))
        \<and> node_value (tree ! unat (no node)) \<noteq> node_value (tree ! unat (missing node))
        \<longrightarrow>
          (?loop index = Some (Inr (node_value (tree ! unat (yes node)))) \<longleftrightarrow> A)
        \<and> (?loop index = Some (Inr (node_value (tree ! unat (no node)))) \<longleftrightarrow> B)
        \<and> (?loop index = Some (Inr (node_value (tree ! unat (missing node)))) \<longleftrightarrow> C)"
  proof (intro impI, elim conjE)
    assume "unat (yes node) < length tree" "sint (feature (tree ! unat (yes node))) < 0"
        "unat (no node) < length tree" "sint (feature (tree ! unat (no node))) < 0"
        "unat (missing node) < length tree" "sint (feature (tree ! unat (missing node))) < 0"
        "node_value (tree ! unat (yes node)) \<noteq> node_value (tree ! unat (no node))"
        "node_value (tree ! unat (yes node)) \<noteq> node_value (tree ! unat (missing node))"
        "node_value (tree ! unat (no node)) \<noteq> node_value (tree ! unat (missing node))"
    then show "(?loop index = Some (Inr (node_value (tree ! unat (yes node)))) \<longleftrightarrow> A)
        \<and> (?loop index = Some (Inr (node_value (tree ! unat (no node)))) \<longleftrightarrow> B)
        \<and> (?loop index = Some (Inr (node_value (tree ! unat (missing node)))) \<longleftrightarrow> C)"
      by (rule e)
  qed
  have all: "(A \<longrightarrow> ?loop index = ?loop (yes node))
    \<and> (B \<longrightarrow> ?loop index = ?loop (no node))
    \<and> (C \<longrightarrow> ?loop index = ?loop (missing node))
    \<and> (\<forall>child. unat child < length tree \<and> sint (feature (tree ! unat child)) < 0 \<longrightarrow>
          ?loop child = Some (Inr (node_value (tree ! unat child))))
    \<and> (unat (yes node) < length tree \<and> sint (feature (tree ! unat (yes node))) < 0
        \<and> unat (no node) < length tree \<and> sint (feature (tree ! unat (no node))) < 0
        \<and> unat (missing node) < length tree \<and> sint (feature (tree ! unat (missing node))) < 0
        \<and> node_value (tree ! unat (yes node)) \<noteq> node_value (tree ! unat (no node))
        \<and> node_value (tree ! unat (yes node)) \<noteq> node_value (tree ! unat (missing node))
        \<and> node_value (tree ! unat (no node)) \<noteq> node_value (tree ! unat (missing node))
        \<longrightarrow>
          (?loop index = Some (Inr (node_value (tree ! unat (yes node)))) \<longleftrightarrow> A)
        \<and> (?loop index = Some (Inr (node_value (tree ! unat (no node)))) \<longleftrightarrow> B)
        \<and> (?loop index = Some (Inr (node_value (tree ! unat (missing node)))) \<longleftrightarrow> C))"
    using a b c l e' by (intro conjI)
  then show ?thesis
    unfolding A_def B_def C_def .
qed

text \<open>
  A root that tests feature 1 against the threshold 5, with the leaves 10, 20 and 30 as
  \<open>yes\<close>, \<open>no\<close> and \<open>missing\<close> children. On \<open>[missing, 3]\<close> the evaluation returns 10, on
  \<open>[missing, 9]\<close> it returns 20, on \<open>[missing, missing]\<close> and on the one-element vector
  \<open>[7]\<close> it returns 30.
\<close>

theorem predict_tree_branch_witness:
  "predict_tree_loop [None, Some (Fin 3)]
     [\<lparr>node_value = Fin 5, feature = 1, yes = 1, no = 2, missing = 3\<rparr>,
      \<lparr>node_value = Fin 10, feature = - 1, yes = 0, no = 0, missing = 0\<rparr>,
      \<lparr>node_value = Fin 20, feature = - 1, yes = 0, no = 0, missing = 0\<rparr>,
      \<lparr>node_value = Fin 30, feature = - 1, yes = 0, no = 0, missing = 0\<rparr>] 0 = Some (Inr (Fin 10))
   \<and> predict_tree_loop [None, Some (Fin 9)]
     [\<lparr>node_value = Fin 5, feature = 1, yes = 1, no = 2, missing = 3\<rparr>,
      \<lparr>node_value = Fin 10, feature = - 1, yes = 0, no = 0, missing = 0\<rparr>,
      \<lparr>node_value = Fin 20, feature = - 1, yes = 0, no = 0, missing = 0\<rparr>,
      \<lparr>node_value = Fin 30, feature = - 1, yes = 0, no = 0, missing = 0\<rparr>] 0 = Some (Inr (Fin 20))
   \<and> predict_tree_loop [None, None]
     [\<lparr>node_value = Fin 5, feature = 1, yes = 1, no = 2, missing = 3\<rparr>,
      \<lparr>node_value = Fin 10, feature = - 1, yes = 0, no = 0, missing = 0\<rparr>,
      \<lparr>node_value = Fin 20, feature = - 1, yes = 0, no = 0, missing = 0\<rparr>,
      \<lparr>node_value = Fin 30, feature = - 1, yes = 0, no = 0, missing = 0\<rparr>] 0 = Some (Inr (Fin 30))
   \<and> predict_tree_loop [Some (Fin 7)]
     [\<lparr>node_value = Fin 5, feature = 1, yes = 1, no = 2, missing = 3\<rparr>,
      \<lparr>node_value = Fin 10, feature = - 1, yes = 0, no = 0, missing = 0\<rparr>,
      \<lparr>node_value = Fin 20, feature = - 1, yes = 0, no = 0, missing = 0\<rparr>,
      \<lparr>node_value = Fin 30, feature = - 1, yes = 0, no = 0, missing = 0\<rparr>] 0 = Some (Inr (Fin 30))"
  using predict_tree_branch[of 0
     "[\<lparr>node_value = Fin 5, feature = 1, yes = 1, no = 2, missing = 3\<rparr>,
      \<lparr>node_value = Fin 10, feature = - 1, yes = 0, no = 0, missing = 0\<rparr>,
      \<lparr>node_value = Fin 20, feature = - 1, yes = 0, no = 0, missing = 0\<rparr>,
      \<lparr>node_value = Fin 30, feature = - 1, yes = 0, no = 0, missing = 0\<rparr>]"
     "\<lparr>node_value = Fin 5, feature = 1, yes = 1, no = 2, missing = 3\<rparr>"
     1 "[None, Some (Fin 3)]"]
    predict_tree_branch[of 0
     "[\<lparr>node_value = Fin 5, feature = 1, yes = 1, no = 2, missing = 3\<rparr>,
      \<lparr>node_value = Fin 10, feature = - 1, yes = 0, no = 0, missing = 0\<rparr>,
      \<lparr>node_value = Fin 20, feature = - 1, yes = 0, no = 0, missing = 0\<rparr>,
      \<lparr>node_value = Fin 30, feature = - 1, yes = 0, no = 0, missing = 0\<rparr>]"
     "\<lparr>node_value = Fin 5, feature = 1, yes = 1, no = 2, missing = 3\<rparr>"
     1 "[None, Some (Fin 9)]"]
    predict_tree_branch[of 0
     "[\<lparr>node_value = Fin 5, feature = 1, yes = 1, no = 2, missing = 3\<rparr>,
      \<lparr>node_value = Fin 10, feature = - 1, yes = 0, no = 0, missing = 0\<rparr>,
      \<lparr>node_value = Fin 20, feature = - 1, yes = 0, no = 0, missing = 0\<rparr>,
      \<lparr>node_value = Fin 30, feature = - 1, yes = 0, no = 0, missing = 0\<rparr>]"
     "\<lparr>node_value = Fin 5, feature = 1, yes = 1, no = 2, missing = 3\<rparr>"
     1 "[None, None]"]
    predict_tree_branch[of 0
     "[\<lparr>node_value = Fin 5, feature = 1, yes = 1, no = 2, missing = 3\<rparr>,
      \<lparr>node_value = Fin 10, feature = - 1, yes = 0, no = 0, missing = 0\<rparr>,
      \<lparr>node_value = Fin 20, feature = - 1, yes = 0, no = 0, missing = 0\<rparr>,
      \<lparr>node_value = Fin 30, feature = - 1, yes = 0, no = 0, missing = 0\<rparr>]"
     "\<lparr>node_value = Fin 5, feature = 1, yes = 1, no = 2, missing = 3\<rparr>"
     1 "[Some (Fin 7)]"]
  by simp

section \<open>A checked tree is evaluated in finitely many steps\<close>

lemma reaches_leaf_decision:
  assumes "unat index < length tree" "0 \<le> sint (feature (tree ! unat index))"
    and "reaches_leaf data tree (yes (tree ! unat index))"
    and "reaches_leaf data tree (no (tree ! unat index))"
    and "reaches_leaf data tree (missing (tree ! unat index))"
  shows "reaches_leaf data tree index"
proof -
  have "reaches_leaf data tree (next_index data (tree ! unat index))"
    using next_index_cases[of data "tree ! unat index"] assms(3-5) by auto
  then show ?thesis
    unfolding reaches_leaf_def predict_tree_loop_decision[OF assms(1,2)] .
qed

lemma check_rec_reaches_leaf:
  "check_rec tree index visited = Inr visited' \<Longrightarrow> index = unat w \<Longrightarrow>
   reaches_leaf data tree w"
proof (induction tree index visited arbitrary: visited' w rule: check_rec.induct)
  case (1 tree index visited)
  from 1(4) show ?case
  proof (cases rule: check_rec_InrE)
    case leaf
    with 1(5) show ?thesis
      unfolding reaches_leaf_def by (auto simp: predict_tree_loop_leaf)
  next
    case (decision v1 v2)
    let ?n = "tree ! index"
    have inb: "\<not> length tree \<le> index" "\<not> length visited \<le> index"
      using decision by simp_all
    have y: "reaches_leaf data tree (yes ?n)"
      using 1(1)[OF inb(1) refl decision(2) inb(2) decision(4) decision(5) refl] .
    have n: "reaches_leaf data tree (no ?n)"
    proof (cases "no ?n \<noteq> yes ?n")
      case True
      with decision(6) have "check_rec tree (unat (no ?n)) v1 = Inr v2" by simp
      from 1(2)[OF inb(1) refl decision(2) inb(2) decision(4) decision(5) True this refl]
      show ?thesis .
    next
      case False
      with y show ?thesis by simp
    qed
    have m: "reaches_leaf data tree (missing ?n)"
    proof (cases "missing ?n \<noteq> yes ?n \<and> missing ?n \<noteq> no ?n")
      case True
      with decision(7) have "check_rec tree (unat (missing ?n)) v2 = Inr visited'" by simp
      from 1(3)[OF inb(1) refl decision(2) inb(2) decision(4) decision(5) decision(6) True
          this refl]
      show ?thesis .
    next
      case False
      with y n show ?thesis by auto
    qed
    from decision(1,2) y n m show ?thesis
      unfolding 1(5) by (rule reaches_leaf_decision)
  qed
qed

lemma checked_tree_reaches_leaf:
  assumes "check tree = Inr ()"
  shows "reaches_leaf data tree 0"
proof -
  from assms obtain visited' where
    "check_rec tree 0 (replicate (length tree) False) = Inr visited'"
    by (auto simp: check_def split: if_splits sum.splits)
  then show ?thesis
    by (rule check_rec_reaches_leaf) simp
qed

text \<open>
  Claim C8. For every tree that \<open>check\<close> accepts and every feature vector, the loop of the
  tree evaluation returns: it reaches a leaf and returns that leaf's value.
\<close>

theorem checked_tree_predict_terminates:
  assumes "check tree = Inr ()"
  shows "\<exists>leaf < length tree. sint (feature (tree ! leaf)) < 0 \<and>
           predict_tree data tree = Some (Inr (node_value (tree ! leaf)))"
  using checked_tree_reaches_leaf[OF assms, of data]
  by (simp add: reaches_leaf_def predict_tree_def)

text \<open>A root with two leaves is accepted, and its evaluation on the empty vector returns.\<close>

theorem checked_tree_predict_terminates_witness:
  "check [\<lparr>node_value = Fin 5, feature = 0, yes = 1, no = 2, missing = 1\<rparr>,
          \<lparr>node_value = Fin 10, feature = - 1, yes = 0, no = 0, missing = 0\<rparr>,
          \<lparr>node_value = Fin 20, feature = - 1, yes = 0, no = 0, missing = 0\<rparr>] = Inr ()
   \<and> (\<exists>y. predict_tree []
          [\<lparr>node_value = Fin 5, feature = 0, yes = 1, no = 2, missing = 1\<rparr>,
           \<lparr>node_value = Fin 10, feature = - 1, yes = 0, no = 0, missing = 0\<rparr>,
           \<lparr>node_value = Fin 20, feature = - 1, yes = 0, no = 0, missing = 0\<rparr>]
        = Some (Inr y))"
proof -
  have c: "check [\<lparr>node_value = Fin 5, feature = 0, yes = 1, no = 2, missing = 1\<rparr>,
          \<lparr>node_value = Fin 10, feature = - 1, yes = 0, no = 0, missing = 0\<rparr>,
          \<lparr>node_value = Fin 20, feature = - 1, yes = 0, no = 0, missing = 0\<rparr>] = Inr ()"
    by (simp add: check_def check_rec.simps)
  from checked_tree_predict_terminates[OF c, of "[]"] c show ?thesis
    by blast
qed

section \<open>The maximum of the softmax transformation\<close>

lemma std_max_Fin: "std_max (Fin a) (Fin b) = Fin (max a b)"
  by (simp add: std_max_def max_def)

lemma softmax_max_Fin:
  "foldl std_max (Fin m) (map Fin xs) = Fin (foldl max m xs)"
  by (induction xs arbitrary: m) (simp_all add: std_max_Fin)

text \<open>
  Claim C1, at the input \<open>[-1, -2]\<close>. The running maximum starts at
  \<open>std::numeric_limits<float>::min()\<close>, which is the smallest positive normalized float
  \<open>1 / 2 ^ 126\<close> and not the lowest float. When every element is negative the
  maximum stays at that start value: the value \<open>transformSoftmax\<close> subtracts is
  \<open>1 / 2 ^ 126\<close>, not the vector's maximum \<open>-1\<close>.
\<close>

theorem transformSoftmax_negative_input:
  "softmax_max [Fin (- 1), Fin (- 2)] = Fin (1 / 2 ^ 126)
   \<and> softmax_max [Fin (- 1), Fin (- 2)] \<noteq> Fin (- 1)
   \<and> transform [Fin (- 1), Fin (- 2)] SOFTMAX
       = [expf (Fin (- 1) - FLT_MIN) / (0 + expf (Fin (- 1) - FLT_MIN) + expf (Fin (- 2) - FLT_MIN)),
          expf (Fin (- 2) - FLT_MIN) / (0 + expf (Fin (- 1) - FLT_MIN) + expf (Fin (- 2) - FLT_MIN))]"
proof -
  have m: "softmax_max [Fin (- 1), Fin (- 2)] = FLT_MIN"
    by (simp add: softmax_max_def std_max_def FLT_MIN_def)
  have "softmax_max [Fin (- 1), Fin (- 2)] = Fin (1 / 2 ^ 126)"
    using m by (simp add: FLT_MIN_def)
  moreover have "softmax_max [Fin (- 1), Fin (- 2)] \<noteq> Fin (- 1)"
    by (simp add: softmax_max_def std_max_def FLT_MIN_def)
  moreover have "transform [Fin (- 1), Fin (- 2)] SOFTMAX
       = [expf (Fin (- 1) - FLT_MIN) / (0 + expf (Fin (- 1) - FLT_MIN) + expf (Fin (- 2) - FLT_MIN)),
          expf (Fin (- 2) - FLT_MIN) / (0 + expf (Fin (- 1) - FLT_MIN) + expf (Fin (- 2) - FLT_MIN))]"
    unfolding transform_def transformSoftmax_def m by (simp add: Let_def)
  ultimately show ?thesis by blast
qed

section \<open>The base score of the logistic objectives\<close>

text \<open>On numbers the guard of \<open>transformBaseScore\<close> accepts exactly the open interval.\<close>

lemma transformBaseScore_logistic_Fin:
  assumes "objective = ''reg:logistic'' \<or> objective = ''binary:logistic''
           \<or> objective = ''binary:logitraw''"
  shows "transformBaseScore objective (Fin r) =
           (if 0 < r \<and> r < 1 then Inr (Fin (- ln (1 / r - 1)))
            else Inl (InvalidBaseScore (Fin r)))"
proof (cases "0 < r \<and> r < 1")
  case True
  then have "1 < 1 / r" by simp
  then have pos: "\<not> 1 / r - 1 < 0" "1 / r - 1 \<noteq> 0" by linarith+
  have g: "\<not> (Fin r \<le> 0 \<or> 1 \<le> Fin r)"
    using True by (simp add: zero_float_def one_float_def)
  have "- logf (1 / Fin r - 1) = Fin (- ln (1 / r - 1))"
    using True pos by (simp add: one_float_def minus_float_def)
  with assms g True show ?thesis
    unfolding transformBaseScore_def by simp
next
  case False
  then have "Fin r \<le> 0 \<or> 1 \<le> Fin r"
    by (auto simp: zero_float_def one_float_def)
  with assms False show ?thesis
    unfolding transformBaseScore_def by simp
qed

text \<open>On every float but NaN the guard throws exactly outside the open interval.\<close>

lemma transformBaseScore_logistic_not_NaN:
  assumes "objective = ''reg:logistic'' \<or> objective = ''binary:logistic''
           \<or> objective = ''binary:logitraw''"
    and "b \<noteq> NaN"
  shows "transformBaseScore objective b = Inl (InvalidBaseScore b) \<longleftrightarrow> \<not> (0 < b \<and> b < 1)"
proof (cases b)
  case NaN
  with assms(2) show ?thesis by simp
next
  case NegInf
  with assms(1) show ?thesis
    by (simp add: transformBaseScore_def zero_float_def one_float_def)
next
  case (Fin r)
  with transformBaseScore_logistic_Fin[OF assms(1), of r] show ?thesis
    by (simp add: zero_float_def one_float_def)
next
  case PosInf
  with assms(1) show ?thesis
    by (simp add: transformBaseScore_def zero_float_def one_float_def)
qed

text \<open>
  Claim C6, at the base score NaN (\<open>std::stof\<close> parses the string \<open>nan\<close> to it). NaN is
  not strictly between 0 and 1, but both comparisons of the guard are false on NaN:
  \<open>transformBaseScore\<close> does not throw and the stored base score is NaN.
\<close>

theorem transformBaseScore_nan:
  "transformBaseScore ''binary:logistic'' NaN = Inr NaN
   \<and> \<not> (0 < NaN \<and> NaN < (1 :: float))"
  by (simp add: transformBaseScore_def zero_float_def one_float_def minus_float_def)

section \<open>Group assembly\<close>

lemma group_of_Cons:
  "group_of (group' # tree_info) (tree # predictor) g =
     (if nat (sint group') = g then [tree] else []) @ group_of tree_info predictor g"
  by (simp add: group_of_def)

lemma group_of_Nil [simp]: "group_of [] predictor g = []"
  by (simp add: group_of_def)

lemma build_predictors_negative:
  "length tree_info = length predictor \<Longrightarrow> \<exists>group'\<in>set tree_info. sint group' < 0 \<Longrightarrow>
   \<exists>group'\<in>set tree_info. sint group' < 0 \<and>
      build_predictors tree_info predictor predictors' = Inl (TreeInfoGroup (sint group'))"
proof (induction tree_info predictor predictors' rule: build_predictors.induct)
  case (1 predictor predictors')
  then show ?case by simp
next
  case (2 group' tree_info predictors')
  then show ?case by simp
next
  case (3 group' tree_info tree predictor predictors')
  show ?case
  proof (cases "sint group' < 0")
    case True
    then show ?thesis by simp
  next
    case False
    then have nn: "0 \<le> sint group'" by simp
    let ?resized = "(if length predictors' < unat (group' + 1)
               then predictors' @ replicate (unat (group' + 1) - length predictors') []
               else predictors')"
    have len: "\<not> length ?resized \<le> nat (sint group')"
      using unat_succ[OF nn] unat_nonneg[OF nn] by auto
    from 3(2,3) False have "length tree_info = length predictor"
      "\<exists>group'\<in>set tree_info. sint group' < 0" by auto
    from 3(1)[OF False refl len this] False len show ?thesis
      by (auto simp: Let_def)
  qed
qed

lemma Max_insert_max:
  fixes a b :: nat
  shows "finite A \<Longrightarrow> Max (insert (max a b) A) = Max (insert a (insert b A))"
  by (cases "A = {}") (simp_all add: max.assoc)

lemma build_predictors_ok:
  "length tree_info = length predictor \<Longrightarrow> \<forall>group'\<in>set tree_info. 0 \<le> sint group' \<Longrightarrow>
   \<exists>result. build_predictors tree_info predictor predictors' = Inr result
     \<and> length result = Max (insert (length predictors') ((\<lambda>g. Suc (nat (sint g))) ` set tree_info))
     \<and> (\<forall>g < length result.
          result ! g = (if g < length predictors' then predictors' ! g else [])
                       @ group_of tree_info predictor g)"
proof (induction tree_info predictor predictors' rule: build_predictors.induct)
  case (1 predictor predictors')
  then show ?case by simp
next
  case (2 group' tree_info predictors')
  then show ?case by simp
next
  case (3 group' tree_info tree predictor predictors')
  from 3(3) have nn: "0 \<le> sint group'" by simp
  then have nneg: "\<not> sint group' < 0" by simp
  let ?k = "nat (sint group')"
  let ?resized = "(if length predictors' < unat (group' + 1)
               then predictors' @ replicate (unat (group' + 1) - length predictors') []
               else predictors')"
  let ?next = "?resized[?k := ?resized ! ?k @ [tree]]"
  have sz: "unat (group' + 1) = Suc ?k"
    using unat_succ[OF nn] unat_nonneg[OF nn] by simp
  have lr: "length ?resized = max (length predictors') (Suc ?k)"
    by (simp add: sz)
  have len: "\<not> length ?resized \<le> ?k"
    by (simp add: sz)
  have rk: "\<And>g. g < length ?resized \<Longrightarrow>
              ?resized ! g = (if g < length predictors' then predictors' ! g else [])"
    by (auto simp: sz nth_append)
  from 3(2,3) have pre: "length tree_info = length predictor"
    "\<forall>group'\<in>set tree_info. 0 \<le> sint group'" by auto
  from 3(1)[OF nneg refl len pre] obtain result where
    r: "build_predictors tree_info predictor ?next = Inr result"
    and rl: "length result = Max (insert (length ?next) ((\<lambda>g. Suc (nat (sint g))) ` set tree_info))"
    and re: "\<forall>g < length result. result ! g =
               (if g < length ?next then ?next ! g else []) @ group_of tree_info predictor g"
    by blast
  have eq: "build_predictors (group' # tree_info) (tree # predictor) predictors' = Inr result"
    using r nneg len by (simp add: Let_def)
  have l: "length result =
      Max (insert (length predictors') ((\<lambda>g. Suc (nat (sint g))) ` set (group' # tree_info)))"
  proof -
    have "length ?next = max (length predictors') (Suc ?k)" using lr by simp
    with rl have "length result =
      Max (insert (max (length predictors') (Suc ?k)) ((\<lambda>g. Suc (nat (sint g))) ` set tree_info))"
      by simp
    also have "\<dots> = Max (insert (length predictors')
        (insert (Suc ?k) ((\<lambda>g. Suc (nat (sint g))) ` set tree_info)))"
      by (rule Max_insert_max) simp
    finally show ?thesis by simp
  qed
  have ge: "length ?next \<le> length result"
    unfolding rl by (rule Max_ge) simp_all
  have e: "\<forall>g < length result. result ! g =
      (if g < length predictors' then predictors' ! g else [])
      @ group_of (group' # tree_info) (tree # predictor) g"
  proof (intro allI impI)
    fix g assume g: "g < length result"
    show "result ! g = (if g < length predictors' then predictors' ! g else [])
      @ group_of (group' # tree_info) (tree # predictor) g"
    proof (cases "g < length ?resized")
      case True
      then have "?next ! g = (if g < length predictors' then predictors' ! g else [])
          @ (if ?k = g then [tree] else [])"
        using rk[OF True] by (auto simp: nth_list_update)
      with re g True show ?thesis
        by (simp add: group_of_Cons)
    next
      case False
      then have "\<not> g < length predictors'" "?k \<noteq> g"
        using lr by auto
      with re g False show ?thesis
        by (simp add: group_of_Cons)
    qed
  qed
  from eq l e show ?case by blast
qed


lemma build_predictors_Inl:
  assumes "length tree_info = length predictor"
  shows "(\<exists>e. build_predictors tree_info predictor predictors' = Inl e)
         \<longleftrightarrow> (\<exists>group'\<in>set tree_info. sint group' < 0)"
proof (cases "\<exists>group'\<in>set tree_info. sint group' < 0")
  case True
  from build_predictors_negative[OF assms True, of predictors'] True show ?thesis by blast
next
  case False
  then have "\<forall>group'\<in>set tree_info. 0 \<le> sint group'" by auto
  from build_predictors_ok[OF assms this, of predictors'] False show ?thesis by auto
qed

text \<open>
  Claim C9. Group assembly fails if and only if the length of \<open>tree_info\<close> differs from
  the number of trees or some entry of \<open>tree_info\<close> is negative. On success the number of
  predictors is one plus the largest group id (and zero when there is no tree), the
  predictor at index \<open>g\<close> holds the trees whose entry is \<open>g\<close> in file order, and a group id
  below the largest that no entry names has an empty predictor.
\<close>

theorem group_trees_assembly:
  "((\<exists>e. group_trees tree_info predictor = Inl e) \<longleftrightarrow>
      length tree_info \<noteq> length predictor \<or> (\<exists>group'\<in>set tree_info. sint group' < 0))
   \<and> (\<forall>result. group_trees tree_info predictor = Inr result \<longrightarrow>
        length result =
          (if tree_info = [] then 0 else Suc (Max ((\<lambda>g. nat (sint g)) ` set tree_info)))
        \<and> (\<forall>g < length result. result ! g = group_of tree_info predictor g)
        \<and> (\<forall>g < length result. g \<notin> (\<lambda>g. nat (sint g)) ` set tree_info \<longrightarrow> result ! g = []))"
proof (cases "length tree_info = length predictor")
  case False
  then show ?thesis by (simp add: group_trees_def)
next
  case len: True
  then have gt: "group_trees tree_info predictor = build_predictors tree_info predictor []"
    by (simp add: group_trees_def)
  have fails: "(\<exists>e. group_trees tree_info predictor = Inl e) \<longleftrightarrow>
      length tree_info \<noteq> length predictor \<or> (\<exists>group'\<in>set tree_info. sint group' < 0)"
    using build_predictors_Inl[OF len, of "[]"] len gt by simp
  have ok: "length result =
          (if tree_info = [] then 0 else Suc (Max ((\<lambda>g. nat (sint g)) ` set tree_info)))
        \<and> (\<forall>g < length result. result ! g = group_of tree_info predictor g)
        \<and> (\<forall>g < length result. g \<notin> (\<lambda>g. nat (sint g)) ` set tree_info \<longrightarrow> result ! g = [])"
    if r: "group_trees tree_info predictor = Inr result" for result
  proof -
    from r fails len have nn: "\<forall>group'\<in>set tree_info. 0 \<le> sint group'"
      by (auto simp: not_less)
    from build_predictors_ok[OF len nn, of "[]"] r gt
    have l: "length result = Max (insert 0 ((\<lambda>g. Suc (nat (sint g))) ` set tree_info))"
      and e: "\<forall>g < length result. result ! g = group_of tree_info predictor g"
      by auto
    have l': "length result =
          (if tree_info = [] then 0 else Suc (Max ((\<lambda>g. nat (sint g)) ` set tree_info)))"
    proof (cases "tree_info = []")
      case True
      with l show ?thesis by simp
    next
      case False
      let ?ids = "(\<lambda>g. nat (sint g)) ` set tree_info"
      have ne: "?ids \<noteq> {}" "finite ?ids" using False by simp_all
      have "(\<lambda>g. Suc (nat (sint g))) ` set tree_info = Suc ` ?ids" by (simp add: image_image)
      then have "length result = Max (insert 0 (Suc ` ?ids))" using l by simp
      also have "\<dots> = Max (Suc ` ?ids)" using ne by simp
      also have "\<dots> = Suc (Max ?ids)"
        using ne by (simp add: mono_Max_commute[symmetric] mono_Suc)
      finally show ?thesis using False by simp
    qed
    have "\<forall>g < length result. g \<notin> (\<lambda>g. nat (sint g)) ` set tree_info \<longrightarrow> result ! g = []"
    proof (intro allI impI)
      fix g assume "g < length result" "g \<notin> (\<lambda>g. nat (sint g)) ` set tree_info"
      then have "result ! g = group_of tree_info predictor g"
        "\<forall>x \<in> set (zip tree_info predictor). nat (sint (fst x)) \<noteq> g"
        using e by (auto dest: set_zip_leftD)
      then show "result ! g = []"
        by (auto simp: group_of_def filter_empty_conv)
    qed
    with l' e show ?thesis by blast
  qed
  from fails ok show ?thesis by blast
qed

text \<open>
  Three one-leaf trees with the group ids 2, 0 and 2: group 1 is empty. A negative group
  id and a \<open>tree_info\<close> longer than the list of trees make the assembly fail.
\<close>

theorem group_trees_assembly_witness:
  "group_trees [2, 0, 2]
     [[\<lparr>node_value = Fin 1, feature = - 1, yes = 0, no = 0, missing = 0\<rparr>],
      [\<lparr>node_value = Fin 2, feature = - 1, yes = 0, no = 0, missing = 0\<rparr>],
      [\<lparr>node_value = Fin 3, feature = - 1, yes = 0, no = 0, missing = 0\<rparr>]]
   = Inr [[[\<lparr>node_value = Fin 2, feature = - 1, yes = 0, no = 0, missing = 0\<rparr>]],
          [],
          [[\<lparr>node_value = Fin 1, feature = - 1, yes = 0, no = 0, missing = 0\<rparr>],
           [\<lparr>node_value = Fin 3, feature = - 1, yes = 0, no = 0, missing = 0\<rparr>]]]
   \<and> (3 :: nat) = Suc (Max ((\<lambda>g. nat (sint g)) ` set [2, 0, 2 :: 32 word]))
   \<and> (\<exists>e. group_trees [- 1] [[\<lparr>node_value = Fin 1, feature = - 1, yes = 0, no = 0, missing = 0\<rparr>]] = Inl e)
   \<and> (\<exists>e. group_trees [0] [] = Inl e)"
proof -
  have e: "group_trees [2, 0, 2]
     [[\<lparr>node_value = Fin 1, feature = - 1, yes = 0, no = 0, missing = 0\<rparr>],
      [\<lparr>node_value = Fin 2, feature = - 1, yes = 0, no = 0, missing = 0\<rparr>],
      [\<lparr>node_value = Fin 3, feature = - 1, yes = 0, no = 0, missing = 0\<rparr>]]
   = Inr [[[\<lparr>node_value = Fin 2, feature = - 1, yes = 0, no = 0, missing = 0\<rparr>]],
          [],
          [[\<lparr>node_value = Fin 1, feature = - 1, yes = 0, no = 0, missing = 0\<rparr>],
           [\<lparr>node_value = Fin 3, feature = - 1, yes = 0, no = 0, missing = 0\<rparr>]]]"
    by code_simp
  from group_trees_assembly[of "[2, 0, 2]"
     "[[\<lparr>node_value = Fin 1, feature = - 1, yes = 0, no = 0, missing = 0\<rparr>],
      [\<lparr>node_value = Fin 2, feature = - 1, yes = 0, no = 0, missing = 0\<rparr>],
      [\<lparr>node_value = Fin 3, feature = - 1, yes = 0, no = 0, missing = 0\<rparr>]]"] e
  have l: "length [[[\<lparr>node_value = Fin 2, feature = - 1, yes = 0, no = 0, missing = 0\<rparr>]],
          [],
          [[\<lparr>node_value = Fin 1, feature = - 1, yes = 0, no = 0, missing = 0\<rparr>],
           [\<lparr>node_value = Fin 3, feature = - 1, yes = 0, no = 0, missing = 0\<rparr>]]]
     = Suc (Max ((\<lambda>g. nat (sint g)) ` set [2, 0, 2 :: 32 word]))"
    by (simp del: Max_insert set_simps list.set)
  from group_trees_assembly[of "[- 1]" "[[\<lparr>node_value = Fin 1, feature = - 1, yes = 0, no = 0, missing = 0\<rparr>]]"]
  have n: "\<exists>e. group_trees [- 1] [[\<lparr>node_value = Fin 1, feature = - 1, yes = 0, no = 0, missing = 0\<rparr>]] = Inl e"
    by simp
  from group_trees_assembly[of "[0]" "[]"]
  have z: "\<exists>e. group_trees [0] [] = Inl e"
    by simp
  from e l n z show ?thesis by simp
qed

section \<open>Predictions of a model\<close>

lemma predict_tree_loop_error_aux:
  assumes "predict_tree_loop data tree index = Some r"
  shows "\<forall>e. r = Inl e \<longrightarrow> e = OutOfBounds"
  using assms
proof (rule predict_tree_loop.raw_induct
    [rotated 1, where P = "\<lambda>_ _ _ r. \<forall>e. r = Inl e \<longrightarrow> e = OutOfBounds"], goal_cases)
  case (1 loop data tree index r)
  then show ?case
    by (auto simp: Let_def split: if_splits)
qed

lemma predict_tree_loop_error:
  "predict_tree_loop data tree index = Some (Inl e) \<Longrightarrow> e = OutOfBounds"
  using predict_tree_loop_error_aux by blast

lemma predict_tree_error:
  "predict_tree data tree = Some (Inl e) \<Longrightarrow> e = OutOfBounds"
  unfolding predict_tree_def by (rule predict_tree_loop_error)

lemma predict_trees_Inr:
  "predict_trees data trees prediction = Some (Inr s) \<longleftrightarrow>
   (\<exists>leaves. list_all2 (\<lambda>tree v. predict_tree data tree = Some (Inr v)) trees leaves
      \<and> s = foldl (+) prediction leaves)"
proof (induction trees arbitrary: prediction)
  case Nil
  then show ?case by auto
next
  case (Cons tree trees)
  show ?case
  proof (cases "predict_tree data tree")
    case None
    then show ?thesis by (auto simp: list_all2_Cons1)
  next
    case (Some r)
    show ?thesis
    proof (cases r)
      case (Inl e)
      with Some show ?thesis by (auto simp: list_all2_Cons1)
    next
      case (Inr v)
      with Some Cons.IH[of "prediction + v"] show ?thesis
        by (auto simp: list_all2_Cons1)
    qed
  qed
qed

lemma predict_trees_error:
  "predict_trees data trees prediction = Some (Inl e) \<Longrightarrow> e = OutOfBounds"
proof (induction trees arbitrary: prediction)
  case Nil
  then show ?case by simp
next
  case (Cons tree trees)
  then show ?case
    by (auto split: option.splits sum.splits dest: predict_tree_error)
qed

lemma predict_predictor_Inr:
  "predict_predictor m_model data predictor = Some (Inr s) \<longleftrightarrow>
   (\<exists>leaves. list_all2 (\<lambda>tree v. predict_tree data tree = Some (Inr v)) predictor leaves
      \<and> s = foldl (+) 0 leaves + base_score m_model)"
proof -
  have "predict_predictor m_model data predictor = Some (Inr s) \<longleftrightarrow>
    (\<exists>p. predict_trees data predictor 0 = Some (Inr p) \<and> s = p + base_score m_model)"
    by (auto simp: predict_predictor_def split: option.splits sum.splits)
  then show ?thesis by (auto simp: predict_trees_Inr)
qed

lemma predict_predictor_error:
  "predict_predictor m_model data predictor = Some (Inl e) \<Longrightarrow> e = OutOfBounds"
  by (auto simp: predict_predictor_def split: option.splits sum.splits dest: predict_trees_error)

lemma checked_predictor_returns:
  assumes "list_all (\<lambda>tree. check tree = Inr ()) predictor"
  shows "\<exists>s. predict_predictor m_model data predictor = Some (Inr s)"
proof -
  have "\<exists>leaves. list_all2 (\<lambda>tree v. predict_tree data tree = Some (Inr v)) predictor leaves"
    using assms
  proof (induction predictor)
    case Nil
    then show ?case by simp
  next
    case (Cons tree trees)
    then obtain leaves where
      l: "list_all2 (\<lambda>tree v. predict_tree data tree = Some (Inr v)) trees leaves" by auto
    from Cons.prems have "check tree = Inr ()" by simp
    from checked_tree_reaches_leaf[OF this, of data] obtain v where
      "predict_tree data tree = Some (Inr v)"
      by (auto simp: reaches_leaf_def predict_tree_def)
    with l have "list_all2 (\<lambda>tree v. predict_tree data tree = Some (Inr v)) (tree # trees) (v # leaves)"
      by simp
    then show ?case by blast
  qed
  then show ?thesis by (auto simp: predict_predictor_Inr)
qed

lemma collect_Cons_Inr:
  "collect f (x # xs) = Some (Inr ys) \<longleftrightarrow>
   (\<exists>v vs. f x = Some (Inr v) \<and> collect f xs = Some (Inr vs) \<and> ys = v # vs)"
  by (auto split: option.splits sum.splits)

lemma collect_Inr:
  "collect f xs = Some (Inr ys) \<longleftrightarrow> list_all2 (\<lambda>x y. f x = Some (Inr y)) xs ys"
proof (induction xs arbitrary: ys)
  case Nil
  then show ?case by auto
next
  case (Cons x xs)
  show ?case
    unfolding collect_Cons_Inr Cons.IH list_all2_Cons1 by blast
qed

lemma collect_error:
  "collect f xs = Some (Inl e) \<Longrightarrow> \<exists>x\<in>set xs. f x = Some (Inl e)"
  by (induction xs) (auto split: option.splits sum.splits)

lemma collect_returns:
  "\<forall>x\<in>set xs. \<exists>y. f x = Some (Inr y) \<Longrightarrow> \<exists>ys. collect f xs = Some (Inr ys)"
  by (induction xs) auto

lemma length_transform [simp]: "length (transform predictions t) = length predictions"
  by (simp add: transform_def transformSigmoid_def transformSoftmax_def Let_def)


text \<open>
  Claim C7. For a model whose trees have all passed \<open>check\<close> and every feature vector,
  \<open>predict\<close> returns a vector with one entry for each output group. Before the
  transformation, entry \<open>g\<close> is the sum, accumulated from \<open>0.0f\<close> in tree order, of the leaf
  values the trees of group \<open>g\<close> return for the input, plus the model's base score, added
  once. The vector is transformed with the model's transformation kind exactly when
  \<open>outputMargin\<close> is false.
\<close>

theorem predict_margins:
  assumes "checked_model m_model"
  shows "\<exists>margins.
     length margins = length (predictors m_model)
     \<and> (\<forall>g < length (predictors m_model).
          \<exists>leaves. list_all2 (\<lambda>tree v. predict_tree data tree = Some (Inr v))
                     (predictors m_model ! g) leaves
            \<and> margins ! g = foldl (+) 0 leaves + base_score m_model)
     \<and> predict m_model data outputMargin =
          Some (Inr (if outputMargin then margins
                     else transform margins (transformation m_model)))
     \<and> (\<forall>result. predict m_model data outputMargin = Some (Inr result)
          \<longrightarrow> length result = length (predictors m_model))"
proof -
  from assms have "\<forall>predictor\<in>set (predictors m_model).
      \<exists>s. predict_predictor m_model data predictor = Some (Inr s)"
    by (auto simp: checked_model_def list_all_iff intro!: checked_predictor_returns)
  from collect_returns[OF this] obtain margins where
    c: "collect (predict_predictor m_model data) (predictors m_model) = Some (Inr margins)"
    by blast
  then have l2: "list_all2 (\<lambda>predictor s. predict_predictor m_model data predictor = Some (Inr s))
      (predictors m_model) margins"
    by (simp add: collect_Inr)
  then have len: "length margins = length (predictors m_model)"
    by (simp add: list_all2_lengthD)
  have each: "\<forall>g < length (predictors m_model).
          \<exists>leaves. list_all2 (\<lambda>tree v. predict_tree data tree = Some (Inr v))
                     (predictors m_model ! g) leaves
            \<and> margins ! g = foldl (+) 0 leaves + base_score m_model"
    using l2 by (auto simp: list_all2_conv_all_nth predict_predictor_Inr)
  have p: "predict m_model data outputMargin =
          Some (Inr (if outputMargin then margins
                     else transform margins (transformation m_model)))"
    using c by (simp add: predict_def)
  have "\<forall>result. predict m_model data outputMargin = Some (Inr result)
          \<longrightarrow> length result = length (predictors m_model)"
    using p len by auto
  with len each p show ?thesis by blast
qed

text \<open>A model of two groups, the second without trees, with the softmax transformation.\<close>

theorem predict_margins_witness:
  "checked_model
     \<lparr>predictors = [[[\<lparr>node_value = Fin 5, feature = 0, yes = 1, no = 2, missing = 1\<rparr>,
          \<lparr>node_value = Fin 10, feature = - 1, yes = 0, no = 0, missing = 0\<rparr>,
          \<lparr>node_value = Fin 20, feature = - 1, yes = 0, no = 0, missing = 0\<rparr>]], []],
       base_score = Fin 0, transformation = SOFTMAX\<rparr>
   \<and> (\<exists>margins. length margins = 2
        \<and> predict
             \<lparr>predictors = [[[\<lparr>node_value = Fin 5, feature = 0, yes = 1, no = 2, missing = 1\<rparr>,
          \<lparr>node_value = Fin 10, feature = - 1, yes = 0, no = 0, missing = 0\<rparr>,
          \<lparr>node_value = Fin 20, feature = - 1, yes = 0, no = 0, missing = 0\<rparr>]], []],
       base_score = Fin 0, transformation = SOFTMAX\<rparr>
             [Some (Fin 7)] False
           = Some (Inr (transform margins SOFTMAX)))"
proof -
  have c: "checked_model
     \<lparr>predictors = [[[\<lparr>node_value = Fin 5, feature = 0, yes = 1, no = 2, missing = 1\<rparr>,
          \<lparr>node_value = Fin 10, feature = - 1, yes = 0, no = 0, missing = 0\<rparr>,
          \<lparr>node_value = Fin 20, feature = - 1, yes = 0, no = 0, missing = 0\<rparr>]], []],
       base_score = Fin 0, transformation = SOFTMAX\<rparr>"
    by (simp add: checked_model_def check_def check_rec.simps)
  from predict_margins[OF c, of "[Some (Fin 7)]" False] c show ?thesis
    by (auto simp: numeral_2_eq_2)
qed

text \<open>
  Claim C5. The batch \<open>predict\<close> throws "incompatible model size" if and only if the
  model does not have exactly one output group. When it returns, it returns one score for
  each input vector, in input order: the margins the sole group gives for the vectors,
  transformed when \<open>outputMargin\<close> is false. For a model with one group whose trees have
  passed \<open>check\<close> it does return.
\<close>

theorem predict_batch_model_size:
  "((\<exists>n. predict_batch m_model data outputMargin = Some (Inl (IncompatibleModelSize n)))
      \<longleftrightarrow> length (predictors m_model) \<noteq> 1)
   \<and> (\<forall>scores. predict_batch m_model data outputMargin = Some (Inr scores) \<longrightarrow>
        length scores = length data
        \<and> (\<exists>margins. length margins = length data
             \<and> (\<forall>i < length data.
                  predict_predictor m_model (data ! i) (hd (predictors m_model))
                    = Some (Inr (margins ! i)))
             \<and> scores = (if outputMargin then margins
                          else transform margins (transformation m_model))))
   \<and> (checked_model m_model \<and> length (predictors m_model) = 1 \<longrightarrow>
        (\<exists>scores. predict_batch m_model data outputMargin = Some (Inr scores)))"
proof -
  let ?f = "\<lambda>d. predict_predictor m_model d (hd (predictors m_model))"
  have a: "(\<exists>n. predict_batch m_model data outputMargin = Some (Inl (IncompatibleModelSize n)))
      \<longleftrightarrow> length (predictors m_model) \<noteq> 1"
  proof (cases "length (predictors m_model) = 1")
    case False
    then show ?thesis by (simp add: predict_batch_def)
  next
    case True
    have "predict_batch m_model data outputMargin \<noteq> Some (Inl (IncompatibleModelSize n))" for n
    proof
      assume "predict_batch m_model data outputMargin = Some (Inl (IncompatibleModelSize n))"
      with True have "collect ?f data = Some (Inl (IncompatibleModelSize n))"
        by (auto simp: predict_batch_def split: option.splits sum.splits)
      from collect_error[OF this] show False
        by (auto dest: predict_predictor_error)
    qed
    with True show ?thesis by simp
  qed
  have b: "length scores = length data
        \<and> (\<exists>margins. length margins = length data
             \<and> (\<forall>i < length data. ?f (data ! i) = Some (Inr (margins ! i)))
             \<and> scores = (if outputMargin then margins
                          else transform margins (transformation m_model)))"
    if s: "predict_batch m_model data outputMargin = Some (Inr scores)" for scores
  proof -
    from s obtain margins where
      c: "collect ?f data = Some (Inr margins)"
      and sc: "scores = (if outputMargin then margins
                         else transform margins (transformation m_model))"
      by (auto simp: predict_batch_def split: if_splits option.splits sum.splits)
    from c have l2: "list_all2 (\<lambda>d s. ?f d = Some (Inr s)) data margins"
      by (simp add: collect_Inr)
    then have len: "length margins = length data"
      by (simp add: list_all2_lengthD)
    from l2 have "\<forall>i < length data. ?f (data ! i) = Some (Inr (margins ! i))"
      by (simp add: list_all2_conv_all_nth)
    with len sc show ?thesis by auto
  qed
  have c: "\<exists>scores. predict_batch m_model data outputMargin = Some (Inr scores)"
    if "checked_model m_model" "length (predictors m_model) = 1"
  proof -
    from that have "list_all (\<lambda>tree. check tree = Inr ()) (hd (predictors m_model))"
      by (cases "predictors m_model") (auto simp: checked_model_def)
    then have "\<forall>d\<in>set data. \<exists>s. ?f d = Some (Inr s)"
      by (auto intro: checked_predictor_returns)
    from collect_returns[OF this] obtain margins where
      "collect ?f data = Some (Inr margins)" by blast
    with that(2) show ?thesis by (simp add: predict_batch_def)
  qed
  from a b c show ?thesis by blast
qed


text \<open>A model of one group on two feature vectors, and a model of two groups.\<close>

theorem predict_batch_model_size_witness:
  "(\<exists>scores. predict_batch
       \<lparr>predictors = [[[\<lparr>node_value = Fin 5, feature = 0, yes = 1, no = 2, missing = 1\<rparr>,
          \<lparr>node_value = Fin 10, feature = - 1, yes = 0, no = 0, missing = 0\<rparr>,
          \<lparr>node_value = Fin 20, feature = - 1, yes = 0, no = 0, missing = 0\<rparr>]]],
       base_score = Fin 0, transformation = SIGMOID\<rparr>
       [[], [Some (Fin 7)]] False = Some (Inr scores) \<and> length scores = 2)
   \<and> (\<exists>n. predict_batch
       \<lparr>predictors = [[[\<lparr>node_value = Fin 5, feature = 0, yes = 1, no = 2, missing = 1\<rparr>,
          \<lparr>node_value = Fin 10, feature = - 1, yes = 0, no = 0, missing = 0\<rparr>,
          \<lparr>node_value = Fin 20, feature = - 1, yes = 0, no = 0, missing = 0\<rparr>]], []],
       base_score = Fin 0, transformation = SOFTMAX\<rparr>
       [[], [Some (Fin 7)]] False = Some (Inl (IncompatibleModelSize n)))"
proof -
  have c: "checked_model
       \<lparr>predictors = [[[\<lparr>node_value = Fin 5, feature = 0, yes = 1, no = 2, missing = 1\<rparr>,
          \<lparr>node_value = Fin 10, feature = - 1, yes = 0, no = 0, missing = 0\<rparr>,
          \<lparr>node_value = Fin 20, feature = - 1, yes = 0, no = 0, missing = 0\<rparr>]]],
       base_score = Fin 0, transformation = SIGMOID\<rparr>"
    by (simp add: checked_model_def check_def check_rec.simps)
  from predict_batch_model_size[of
       "\<lparr>predictors = [[[\<lparr>node_value = Fin 5, feature = 0, yes = 1, no = 2, missing = 1\<rparr>,
          \<lparr>node_value = Fin 10, feature = - 1, yes = 0, no = 0, missing = 0\<rparr>,
          \<lparr>node_value = Fin 20, feature = - 1, yes = 0, no = 0, missing = 0\<rparr>]]],
       base_score = Fin 0, transformation = SIGMOID\<rparr>"
       "[[], [Some (Fin 7)]]" False] c
  have "\<exists>scores. predict_batch
       \<lparr>predictors = [[[\<lparr>node_value = Fin 5, feature = 0, yes = 1, no = 2, missing = 1\<rparr>,
          \<lparr>node_value = Fin 10, feature = - 1, yes = 0, no = 0, missing = 0\<rparr>,
          \<lparr>node_value = Fin 20, feature = - 1, yes = 0, no = 0, missing = 0\<rparr>]]],
       base_score = Fin 0, transformation = SIGMOID\<rparr>
       [[], [Some (Fin 7)]] False = Some (Inr scores) \<and> length scores = 2"
    by auto
  moreover from predict_batch_model_size[of
       "\<lparr>predictors = [[[\<lparr>node_value = Fin 5, feature = 0, yes = 1, no = 2, missing = 1\<rparr>,
          \<lparr>node_value = Fin 10, feature = - 1, yes = 0, no = 0, missing = 0\<rparr>,
          \<lparr>node_value = Fin 20, feature = - 1, yes = 0, no = 0, missing = 0\<rparr>]], []],
       base_score = Fin 0, transformation = SOFTMAX\<rparr>"
       "[[], [Some (Fin 7)]]" False]
  have "\<exists>n. predict_batch
       \<lparr>predictors = [[[\<lparr>node_value = Fin 5, feature = 0, yes = 1, no = 2, missing = 1\<rparr>,
          \<lparr>node_value = Fin 10, feature = - 1, yes = 0, no = 0, missing = 0\<rparr>,
          \<lparr>node_value = Fin 20, feature = - 1, yes = 0, no = 0, missing = 0\<rparr>]], []],
       base_score = Fin 0, transformation = SOFTMAX\<rparr>
       [[], [Some (Fin 7)]] False = Some (Inl (IncompatibleModelSize n))"
    by simp
  ultimately show ?thesis by blast
qed

section \<open>Out-of-bounds indexing\<close>

lemma check_rec_length:
  "check_rec tree index visited = Inr visited' \<Longrightarrow> length visited' = length visited"
proof (induction tree index visited arbitrary: visited' rule: check_rec.induct)
  case (1 tree index visited)
  from 1(4) show ?case
  proof (cases rule: check_rec_InrE)
    case leaf
    then show ?thesis by simp
  next
    case (decision v1 v2)
    let ?n = "tree ! index"
    have inb: "\<not> length tree \<le> index" "\<not> length visited \<le> index"
      using decision by simp_all
    have l1: "length v1 = length visited"
      using 1(1)[OF inb(1) refl decision(2) inb(2) decision(4) decision(5)] by simp
    have l2: "length v2 = length v1"
    proof (cases "no ?n \<noteq> yes ?n")
      case True
      with decision(6) have "check_rec tree (unat (no ?n)) v1 = Inr v2" by simp
      from 1(2)[OF inb(1) refl decision(2) inb(2) decision(4) decision(5) True this]
      show ?thesis .
    next
      case False
      with decision(6) show ?thesis by simp
    qed
    have l3: "length visited' = length v2"
    proof (cases "missing ?n \<noteq> yes ?n \<and> missing ?n \<noteq> no ?n")
      case True
      with decision(7) have "check_rec tree (unat (missing ?n)) v2 = Inr visited'" by simp
      from 1(3)[OF inb(1) refl decision(2) inb(2) decision(4) decision(5) decision(6) True this]
      show ?thesis .
    next
      case False
      with decision(7) show ?thesis by auto
    qed
    from l1 l2 l3 show ?thesis by simp
  qed
qed

lemma check_rec_in_bounds:
  "in_bounds tree \<Longrightarrow> index < length tree \<Longrightarrow> length visited = length tree \<Longrightarrow>
   check_rec tree index visited \<noteq> Inl OutOfBounds"
proof (induction tree index visited rule: check_rec.induct)
  case (1 tree index visited)
  let ?n = "tree ! index"
  show ?case
  proof (cases "0 \<le> sint (feature ?n)")
    case False
    with 1(5) show ?thesis by (simp add: check_rec_leaf)
  next
    case dec: True
    show ?thesis
    proof (cases "visited ! index")
      case True
      with dec 1(5,6) show ?thesis by (simp add: check_rec_marked)
    next
      case unmarked: False
      have inb: "\<not> length tree \<le> index" "\<not> length visited \<le> index"
        using 1(5,6) by simp_all
      have iv: "index < length visited" using 1(5,6) by simp
      have "?n \<in> set tree" using 1(5) by simp
      with 1(4) dec have ch: "unat (yes ?n) < length tree" "unat (no ?n) < length tree"
        "unat (missing ?n) < length tree"
        by (auto simp: in_bounds_def)
      note ih1 = 1(1)[OF inb(1) refl dec inb(2) unmarked 1(4) ch(1)]
      note ih2 = 1(2)[OF inb(1) refl dec inb(2) unmarked _ _ 1(4) ch(2)]
      note ih3 = 1(3)[OF inb(1) refl dec inb(2) unmarked _ _ _ 1(4) ch(3)]
      show ?thesis
      proof (cases "check_rec tree (unat (yes ?n)) (visited[index := True])")
        case (Inl e)
        with ih1 1(6) have "e \<noteq> OutOfBounds" by auto
        with Inl show ?thesis
          unfolding check_rec_decision[OF 1(5) dec iv unmarked] by simp
      next
        case y: (Inr v1)
        have l1: "length v1 = length tree" using check_rec_length[OF y] 1(6) by simp
        show ?thesis
        proof (cases "if no ?n \<noteq> yes ?n then check_rec tree (unat (no ?n)) v1 else Inr v1")
          case (Inl e)
          then have ne: "no ?n \<noteq> yes ?n" "check_rec tree (unat (no ?n)) v1 = Inl e"
            by (auto split: if_splits)
          from ih2[OF y ne(1) l1] ne(2) have "e \<noteq> OutOfBounds" by auto
          with y Inl show ?thesis
            unfolding check_rec_decision[OF 1(5) dec iv unmarked] by simp
        next
          case n: (Inr v2)
          have l2: "length v2 = length tree"
            using n l1 check_rec_length[of tree "unat (no ?n)" v1 v2]
            by (auto split: if_splits)
          show ?thesis
          proof (cases "missing ?n \<noteq> yes ?n \<and> missing ?n \<noteq> no ?n")
            case True
            from ih3[OF y n True l2] y n True show ?thesis
              unfolding check_rec_decision[OF 1(5) dec iv unmarked] by simp
          next
            case False
            with y n show ?thesis
              unfolding check_rec_decision[OF 1(5) dec iv unmarked] by auto
          qed
        qed
      qed
    qed
  qed
qed

lemma predict_tree_loop_in_bounds_aux:
  assumes "predict_tree_loop data tree index = Some r"
  shows "in_bounds tree \<longrightarrow> unat index < length tree \<longrightarrow> r \<noteq> Inl OutOfBounds"
  using assms
proof (rule predict_tree_loop.raw_induct
    [rotated 1, where P = "\<lambda>data tree index r.
       in_bounds tree \<longrightarrow> unat index < length tree \<longrightarrow> r \<noteq> Inl OutOfBounds"], goal_cases)
  case (1 loop data tree index r)
  show ?case
  proof (intro impI)
    assume ib: "in_bounds tree" and i: "unat index < length tree"
    let ?n = "tree ! unat index"
    show "r \<noteq> Inl OutOfBounds"
    proof (cases "sint (feature ?n) < 0")
      case True
      with 1(2) i show ?thesis by (auto simp: Let_def)
    next
      case False
      with 1(2) i have l: "loop data tree (next_index data ?n) = Some r"
        by (simp add: Let_def)
      have "?n \<in> set tree" using i by simp
      with ib False have "unat (next_index data ?n) < length tree"
        using next_index_cases[of data ?n] by (auto simp: in_bounds_def)
      with 1(1)[OF l] ib show ?thesis by simp
    qed
  qed
qed

lemma predict_tree_in_bounds:
  "tree \<noteq> [] \<Longrightarrow> in_bounds tree \<Longrightarrow> predict_tree data tree \<noteq> Some (Inl OutOfBounds)"
  using predict_tree_loop_in_bounds_aux[of data tree 0 "Inl OutOfBounds"]
  by (auto simp: predict_tree_def)


lemma check_range_Inr:
  "check_range nodes n = Inr () \<longleftrightarrow>
   (\<forall>node\<in>set nodes. 0 \<le> sint (feature node) \<longrightarrow>
      unat (yes node) \<le> n \<and> unat (no node) \<le> n \<and> unat (missing node) \<le> n)"
  by (induction nodes) (auto simp: not_less)

lemma check_OutOfBounds:
  "check tree = Inl OutOfBounds \<longleftrightarrow>
   tree \<noteq> [] \<and> check_range tree (length tree) = Inr ()
   \<and> check_rec tree 0 (replicate (length tree) False) = Inl OutOfBounds"
proof (cases "check_range tree (length tree)")
  case (Inl e)
  then have "e = IndexOutOfRange" by (simp add: check_range_Inl)
  with Inl show ?thesis by (auto simp: check_def)
next
  case (Inr u)
  then show ?thesis by (auto simp: check_def split: sum.splits)
qed

section \<open>The cycle check\<close>

lemma marks_mark: "index < length visited \<Longrightarrow> marks (visited[index := True]) = insert index (marks visited)"
  by (auto simp: marks_def nth_list_update)

lemma marks_mem: "index < length visited \<Longrightarrow> index \<in> marks visited \<longleftrightarrow> visited ! index"
  by (simp add: marks_def)

lemma marks_replicate [simp]: "marks (replicate n False) = {}"
  by (auto simp: marks_def)


lemma check_rec_spec_walk:
  "length visited = length tree \<Longrightarrow>
   (\<forall>visited'. check_rec tree index visited = Inr visited' \<longrightarrow>
      spec_walk tree index (marks visited) (Completed (marks visited')))
   \<and> (check_rec tree index visited = Inl CycleInTree \<longrightarrow>
      spec_walk tree index (marks visited) CycleDetected)"
proof (induction tree index visited rule: check_rec.induct)
  case (1 tree index visited)
  let ?n = "tree ! index"
  let ?v0 = "visited[index := True]"
  have len0: "length ?v0 = length tree" using 1(4) by simp
  show ?case
  proof (cases "index < length tree")
    case False
    then show ?thesis by (simp add: check_rec_past_end)
  next
    case inb: True
    then have iv: "index < length visited" using 1(4) by simp
    have nb: "\<not> length tree \<le> index" "\<not> length visited \<le> index"
      using inb iv by simp_all
    show ?thesis
    proof (cases "0 \<le> sint (feature ?n)")
      case False
      then have "sint (feature ?n) < 0" by simp
      with inb show ?thesis
        by (auto simp: check_rec_leaf intro: spec_walk.leaf)
    next
      case dec: True
      show ?thesis
      proof (cases "visited ! index")
        case True
        with inb dec iv have "check_rec tree index visited = Inl CycleInTree"
          by (simp add: check_rec_marked)
        moreover from True iv have "index \<in> marks visited" by (simp add: marks_mem)
        ultimately show ?thesis using inb dec by (auto intro: spec_walk.revisit)
      next
        case unmarked: False
        then have nm: "index \<notin> marks visited" using iv by (simp add: marks_mem)
        have m0: "marks ?v0 = insert index (marks visited)" using iv by (rule marks_mark)
        note ih1 = 1(1)[OF nb(1) refl dec nb(2) unmarked len0, unfolded m0]
        note ih2 = 1(2)[OF nb(1) refl dec nb(2) unmarked]
        note ih3 = 1(3)[OF nb(1) refl dec nb(2) unmarked]
        note unf = check_rec_decision[OF inb dec iv unmarked]
        show ?thesis
        proof (cases "check_rec tree (unat (yes ?n)) ?v0")
          case (Inl e)
          then have r: "check_rec tree index visited = Inl e" unfolding unf by simp
          show ?thesis
          proof (cases "e = CycleInTree")
            case True
            with Inl ih1 have "spec_walk tree (unat (yes ?n)) (insert index (marks visited)) CycleDetected"
              by simp
            from spec_walk.cycle_yes[OF inb dec nm this] r show ?thesis by simp
          next
            case False
            with r show ?thesis by simp
          qed
        next
          case y: (Inr v1)
          have l1: "length v1 = length tree" using check_rec_length[OF y] len0 by simp
          from y ih1 have w1: "spec_walk tree (unat (yes ?n)) (insert index (marks visited))
              (Completed (marks v1))" by simp
          show ?thesis
          proof (cases "if no ?n \<noteq> yes ?n then check_rec tree (unat (no ?n)) v1 else Inr v1")
            case (Inl e)
            then have ne: "no ?n \<noteq> yes ?n" and c: "check_rec tree (unat (no ?n)) v1 = Inl e"
              by (auto split: if_splits)
            from y Inl have r: "check_rec tree index visited = Inl e" unfolding unf by simp
            show ?thesis
            proof (cases "e = CycleInTree")
              case True
              with c ih2[OF y ne l1] have
                "spec_walk tree (unat (no ?n)) (marks v1) CycleDetected" by simp
              from spec_walk.cycle_no[OF inb dec nm w1 ne this] r show ?thesis by simp
            next
              case False
              with r show ?thesis by simp
            qed
          next
            case n: (Inr v2)
            have l2: "length v2 = length tree"
              using n l1 check_rec_length[of tree "unat (no ?n)" v1 v2]
              by (auto split: if_splits)
            have w2: "(no ?n \<noteq> yes ?n \<and> spec_walk tree (unat (no ?n)) (marks v1) (Completed (marks v2)))
                \<or> (no ?n = yes ?n \<and> marks v2 = marks v1)"
            proof (cases "no ?n \<noteq> yes ?n")
              case True
              with n have "check_rec tree (unat (no ?n)) v1 = Inr v2" by simp
              with ih2[OF y True l1] True show ?thesis by simp
            next
              case False
              with n show ?thesis by simp
            qed
            show ?thesis
            proof (cases "missing ?n \<noteq> yes ?n \<and> missing ?n \<noteq> no ?n")
              case True
              with y n have r: "check_rec tree index visited = check_rec tree (unat (missing ?n)) v2"
                unfolding unf by simp
              note ih = ih3[OF y n True l2]
              have a: "\<forall>visited'. check_rec tree index visited = Inr visited' \<longrightarrow>
                  spec_walk tree index (marks visited) (Completed (marks visited'))"
              proof (intro allI impI)
                fix visited' assume "check_rec tree index visited = Inr visited'"
                with r ih have "spec_walk tree (unat (missing ?n)) (marks v2) (Completed (marks visited'))"
                  by simp
                with True have "(missing ?n \<noteq> yes ?n \<and> missing ?n \<noteq> no ?n
                    \<and> spec_walk tree (unat (missing ?n)) (marks v2) (Completed (marks visited')))
                  \<or> ((missing ?n = yes ?n \<or> missing ?n = no ?n) \<and> marks visited' = marks v2)"
                  by simp
                from spec_walk.completed[OF inb dec nm w1 w2 this]
                show "spec_walk tree index (marks visited) (Completed (marks visited'))" .
              qed
              have b: "check_rec tree index visited = Inl CycleInTree \<longrightarrow>
                  spec_walk tree index (marks visited) CycleDetected"
              proof
                assume "check_rec tree index visited = Inl CycleInTree"
                with r ih have "spec_walk tree (unat (missing ?n)) (marks v2) CycleDetected"
                  by simp
                from spec_walk.cycle_missing[OF inb dec nm w1 w2 _ _ this] True
                show "spec_walk tree index (marks visited) CycleDetected" by simp
              qed
              from a b show ?thesis by simp
            next
              case False
              with y n have r: "check_rec tree index visited = Inr v2"
                unfolding unf by auto
              from False have "(missing ?n \<noteq> yes ?n \<and> missing ?n \<noteq> no ?n
                    \<and> spec_walk tree (unat (missing ?n)) (marks v2) (Completed (marks v2)))
                  \<or> ((missing ?n = yes ?n \<or> missing ?n = no ?n) \<and> marks v2 = marks v2)"
                by auto
              from spec_walk.completed[OF inb dec nm w1 w2 this] r show ?thesis by simp
            qed
          qed
        qed
      qed
    qed
  qed
qed


lemma marks_unmarked:
  "index \<notin> marked \<Longrightarrow> marks visited = marked \<Longrightarrow> index < length visited \<Longrightarrow>
   \<not> visited ! index"
  by (auto simp: marks_def)

lemma refinesD_Completed:
  "refines tree index marked (Completed marked') \<Longrightarrow> marks visited = marked \<Longrightarrow>
   length visited = length tree \<Longrightarrow>
   \<exists>visited'. check_rec tree index visited = Inr visited' \<and> marks visited' = marked'
      \<and> length visited' = length tree"
  by (simp add: refines_def)

lemma refinesD_Cycle:
  "refines tree index marked CycleDetected \<Longrightarrow> marks visited = marked \<Longrightarrow>
   length visited = length tree \<Longrightarrow> check_rec tree index visited = Inl CycleInTree"
  by (simp add: refines_def)

lemma spec_walk_refines:
  "spec_walk tree index marked r \<Longrightarrow> refines tree index marked r"
proof (induction rule: spec_walk.induct)
  case (leaf index marked)
  then show ?case by (simp add: refines_def check_rec_leaf)
next
  case (revisit index marked)
  then show ?case by (auto simp: refines_def marks_def check_rec_marked)
next
  case (cycle_yes index marked)
  let ?n = "tree ! index"
  have inb: "index < length tree" and dec: "0 \<le> sint (feature ?n)"
    and nm: "index \<notin> marked" by fact+
  have ry: "refines tree (unat (yes ?n)) (insert index marked) CycleDetected" by fact
  show ?case
    unfolding refines_def
  proof (intro allI impI)
    fix visited assume m: "marks visited = marked" and l: "length visited = length tree"
    from inb l have iv: "index < length visited" by simp
    from nm m iv have un: "\<not> visited ! index" by (rule marks_unmarked)
    have "check_rec tree (unat (yes ?n)) (visited[index := True]) = Inl CycleInTree"
      using refinesD_Cycle[OF ry] m l iv by (simp add: marks_mark)
    then show "case CycleDetected of
        Completed marked' \<Rightarrow> \<exists>visited'. check_rec tree index visited = Inr visited'
          \<and> marks visited' = marked' \<and> length visited' = length tree
      | CycleDetected \<Rightarrow> check_rec tree index visited = Inl CycleInTree"
      unfolding check_rec_decision[OF inb dec iv un] by simp
  qed
next
  case (cycle_no index marked marked1)
  let ?n = "tree ! index"
  have inb: "index < length tree" and dec: "0 \<le> sint (feature ?n)"
    and nm: "index \<notin> marked" by fact+
  have ry: "refines tree (unat (yes ?n)) (insert index marked) (Completed marked1)" by fact
  have ne: "no ?n \<noteq> yes ?n" by fact
  have rn: "refines tree (unat (no ?n)) marked1 CycleDetected" by fact
  show ?case
    unfolding refines_def
  proof (intro allI impI)
    fix visited assume m: "marks visited = marked" and l: "length visited = length tree"
    from inb l have iv: "index < length visited" by simp
    from nm m iv have un: "\<not> visited ! index" by (rule marks_unmarked)
    from refinesD_Completed[OF ry, of "visited[index := True]"] m l iv
    obtain v1 where v1: "check_rec tree (unat (yes ?n)) (visited[index := True]) = Inr v1"
      "marks v1 = marked1" "length v1 = length tree"
      by (auto simp: marks_mark)
    from refinesD_Cycle[OF rn v1(2,3)]
    have "check_rec tree (unat (no ?n)) v1 = Inl CycleInTree" .
    with v1(1) ne show "case CycleDetected of
        Completed marked' \<Rightarrow> \<exists>visited'. check_rec tree index visited = Inr visited'
          \<and> marks visited' = marked' \<and> length visited' = length tree
      | CycleDetected \<Rightarrow> check_rec tree index visited = Inl CycleInTree"
      unfolding check_rec_decision[OF inb dec iv un] by simp
  qed
next
  case (cycle_missing index marked marked1 marked2)
  let ?n = "tree ! index"
  have inb: "index < length tree" and dec: "0 \<le> sint (feature ?n)"
    and nm: "index \<notin> marked" by fact+
  have ry: "refines tree (unat (yes ?n)) (insert index marked) (Completed marked1)" by fact
  have dn: "(no ?n \<noteq> yes ?n \<and> spec_walk tree (unat (no ?n)) marked1 (Completed marked2)
              \<and> refines tree (unat (no ?n)) marked1 (Completed marked2))
            \<or> (no ?n = yes ?n \<and> marked2 = marked1)" by fact
  have my: "missing ?n \<noteq> yes ?n" and mn: "missing ?n \<noteq> no ?n" by fact+
  have rm: "refines tree (unat (missing ?n)) marked2 CycleDetected" by fact
  show ?case
    unfolding refines_def
  proof (intro allI impI)
    fix visited assume m: "marks visited = marked" and l: "length visited = length tree"
    from inb l have iv: "index < length visited" by simp
    from nm m iv have un: "\<not> visited ! index" by (rule marks_unmarked)
    from refinesD_Completed[OF ry, of "visited[index := True]"] m l iv
    obtain v1 where v1: "check_rec tree (unat (yes ?n)) (visited[index := True]) = Inr v1"
      "marks v1 = marked1" "length v1 = length tree"
      by (auto simp: marks_mark)
    have "\<exists>v2. (if no ?n \<noteq> yes ?n then check_rec tree (unat (no ?n)) v1 else Inr v1) = Inr v2
        \<and> marks v2 = marked2 \<and> length v2 = length tree"
    proof (cases "no ?n \<noteq> yes ?n")
      case True
      with dn have "refines tree (unat (no ?n)) marked1 (Completed marked2)" by simp
      from refinesD_Completed[OF this v1(2,3)] True show ?thesis by simp
    next
      case False
      with dn v1 show ?thesis by simp
    qed
    then obtain v2 where v2:
      "(if no ?n \<noteq> yes ?n then check_rec tree (unat (no ?n)) v1 else Inr v1) = Inr v2"
      "marks v2 = marked2" "length v2 = length tree" by blast
    from refinesD_Cycle[OF rm v2(2,3)]
    have "check_rec tree (unat (missing ?n)) v2 = Inl CycleInTree" .
    with v1(1) v2(1) my mn show "case CycleDetected of
        Completed marked' \<Rightarrow> \<exists>visited'. check_rec tree index visited = Inr visited'
          \<and> marks visited' = marked' \<and> length visited' = length tree
      | CycleDetected \<Rightarrow> check_rec tree index visited = Inl CycleInTree"
      unfolding check_rec_decision[OF inb dec iv un] by simp
  qed
next
  case (completed index marked marked1 marked2 marked3)
  let ?n = "tree ! index"
  have inb: "index < length tree" and dec: "0 \<le> sint (feature ?n)"
    and nm: "index \<notin> marked" by fact+
  have ry: "refines tree (unat (yes ?n)) (insert index marked) (Completed marked1)" by fact
  have dn: "(no ?n \<noteq> yes ?n \<and> spec_walk tree (unat (no ?n)) marked1 (Completed marked2)
              \<and> refines tree (unat (no ?n)) marked1 (Completed marked2))
            \<or> (no ?n = yes ?n \<and> marked2 = marked1)" by fact
  have dm: "(missing ?n \<noteq> yes ?n \<and> missing ?n \<noteq> no ?n
              \<and> spec_walk tree (unat (missing ?n)) marked2 (Completed marked3)
              \<and> refines tree (unat (missing ?n)) marked2 (Completed marked3))
            \<or> ((missing ?n = yes ?n \<or> missing ?n = no ?n) \<and> marked3 = marked2)" by fact
  show ?case
    unfolding refines_def
  proof (intro allI impI)
    fix visited assume m: "marks visited = marked" and l: "length visited = length tree"
    from inb l have iv: "index < length visited" by simp
    from nm m iv have un: "\<not> visited ! index" by (rule marks_unmarked)
    from refinesD_Completed[OF ry, of "visited[index := True]"] m l iv
    obtain v1 where v1: "check_rec tree (unat (yes ?n)) (visited[index := True]) = Inr v1"
      "marks v1 = marked1" "length v1 = length tree"
      by (auto simp: marks_mark)
    have "\<exists>v2. (if no ?n \<noteq> yes ?n then check_rec tree (unat (no ?n)) v1 else Inr v1) = Inr v2
        \<and> marks v2 = marked2 \<and> length v2 = length tree"
    proof (cases "no ?n \<noteq> yes ?n")
      case True
      with dn have "refines tree (unat (no ?n)) marked1 (Completed marked2)" by simp
      from refinesD_Completed[OF this v1(2,3)] True show ?thesis by simp
    next
      case False
      with dn v1 show ?thesis by simp
    qed
    then obtain v2 where v2:
      "(if no ?n \<noteq> yes ?n then check_rec tree (unat (no ?n)) v1 else Inr v1) = Inr v2"
      "marks v2 = marked2" "length v2 = length tree" by blast
    have "\<exists>v3. (if missing ?n \<noteq> yes ?n \<and> missing ?n \<noteq> no ?n
                 then check_rec tree (unat (missing ?n)) v2 else Inr v2) = Inr v3
        \<and> marks v3 = marked3 \<and> length v3 = length tree"
    proof (cases "missing ?n \<noteq> yes ?n \<and> missing ?n \<noteq> no ?n")
      case True
      with dm have "refines tree (unat (missing ?n)) marked2 (Completed marked3)"
        by auto
      from refinesD_Completed[OF this v2(2,3)] True show ?thesis by simp
    next
      case False
      with dm v2 show ?thesis by auto
    qed
    then obtain v3 where v3:
      "(if missing ?n \<noteq> yes ?n \<and> missing ?n \<noteq> no ?n
        then check_rec tree (unat (missing ?n)) v2 else Inr v2) = Inr v3"
      "marks v3 = marked3" "length v3 = length tree" by blast
    have "check_rec tree index visited = Inr v3"
      unfolding check_rec_decision[OF inb dec iv un] using v1(1) v2(1) v3(1) by simp
    with v3 show "case Completed marked3 of
        Completed marked' \<Rightarrow> \<exists>visited'. check_rec tree index visited = Inr visited'
          \<and> marks visited' = marked' \<and> length visited' = length tree
      | CycleDetected \<Rightarrow> check_rec tree index visited = Inl CycleInTree"
      by simp
  qed
qed


lemma cycle_free_from_leaf:
  assumes "sint (feature (tree ! index)) < 0"
  shows "cycle_free_from tree index"
proof -
  have no_edge: "(index, k) \<notin> child_edges tree" for k
    using assms by (simp add: child_edges_def)
  show ?thesis
    unfolding cycle_free_from_def
  proof (intro allI impI)
    fix j assume "(index, j) \<in> (child_edges tree)\<^sup>*"
    then have "j = index" using no_edge by (auto elim: converse_rtranclE)
    then show "(j, j) \<notin> (child_edges tree)\<^sup>+"
      using no_edge by (auto dest: tranclD)
  qed
qed

lemma cycle_free_from_decision:
  assumes "cycle_free_from tree (unat (yes (tree ! index)))"
    and "cycle_free_from tree (unat (no (tree ! index)))"
    and "cycle_free_from tree (unat (missing (tree ! index)))"
  shows "cycle_free_from tree index"
proof -
  have step: "cycle_free_from tree k" if "(index, k) \<in> child_edges tree" for k
    using that assms by (auto simp: child_edges_def)
  show ?thesis
    unfolding cycle_free_from_def
  proof (intro allI impI)
    fix j assume r: "(index, j) \<in> (child_edges tree)\<^sup>*"
    show "(j, j) \<notin> (child_edges tree)\<^sup>+"
    proof (cases "j = index")
      case False
      with r obtain k where "(index, k) \<in> child_edges tree" "(k, j) \<in> (child_edges tree)\<^sup>*"
        by (auto elim: converse_rtranclE)
      with step show ?thesis by (auto simp: cycle_free_from_def)
    next
      case True
      show ?thesis
      proof
        assume "(j, j) \<in> (child_edges tree)\<^sup>+"
        with True obtain k where k: "(index, k) \<in> child_edges tree"
          "(k, index) \<in> (child_edges tree)\<^sup>*"
          by (auto dest: tranclD)
        from k have "(index, index) \<in> (child_edges tree)\<^sup>+" by auto
        moreover from step[OF k(1)] k(2) have "(index, index) \<notin> (child_edges tree)\<^sup>+"
          by (auto simp: cycle_free_from_def)
        ultimately show False by simp
      qed
    qed
  qed
qed

lemma check_rec_cycle_free:
  "check_rec tree index visited = Inr visited' \<Longrightarrow> cycle_free_from tree index"
proof (induction tree index visited arbitrary: visited' rule: check_rec.induct)
  case (1 tree index visited)
  from 1(4) show ?case
  proof (cases rule: check_rec_InrE)
    case leaf
    then show ?thesis by (simp add: cycle_free_from_leaf)
  next
    case (decision v1 v2)
    let ?n = "tree ! index"
    have inb: "\<not> length tree \<le> index" "\<not> length visited \<le> index"
      using decision by simp_all
    have y: "cycle_free_from tree (unat (yes ?n))"
      using 1(1)[OF inb(1) refl decision(2) inb(2) decision(4) decision(5)] .
    have n: "cycle_free_from tree (unat (no ?n))"
    proof (cases "no ?n \<noteq> yes ?n")
      case True
      with decision(6) have "check_rec tree (unat (no ?n)) v1 = Inr v2" by simp
      from 1(2)[OF inb(1) refl decision(2) inb(2) decision(4) decision(5) True this]
      show ?thesis .
    next
      case False
      with y show ?thesis by simp
    qed
    have m: "cycle_free_from tree (unat (missing ?n))"
    proof (cases "missing ?n \<noteq> yes ?n \<and> missing ?n \<noteq> no ?n")
      case True
      with decision(7) have "check_rec tree (unat (missing ?n)) v2 = Inr visited'" by simp
      from 1(3)[OF inb(1) refl decision(2) inb(2) decision(4) decision(5) decision(6) True this]
      show ?thesis .
    next
      case False
      with y n show ?thesis by auto
    qed
    from y n m show ?thesis by (rule cycle_free_from_decision)
  qed
qed

lemma check_Cycle:
  "check tree = Inl CycleInTree \<longleftrightarrow>
   tree \<noteq> [] \<and> check_range tree (length tree) = Inr ()
   \<and> check_rec tree 0 (replicate (length tree) False) = Inl CycleInTree"
proof (cases "check_range tree (length tree)")
  case (Inl e)
  then have "e = IndexOutOfRange" by (simp add: check_range_Inl)
  with Inl show ?thesis by (auto simp: check_def)
next
  case (Inr u)
  then show ?thesis by (auto simp: check_def split: sum.splits)
qed

lemma check_in_bounds_cases:
  assumes "tree \<noteq> []" "in_bounds tree"
  shows "check tree = Inr () \<or> check tree = Inl CycleInTree"
proof -
  from assms(2) have r: "check_range tree (length tree) = Inr ()"
    unfolding check_range_Inr in_bounds_def by (auto intro: less_imp_le)
  show ?thesis
  proof (cases "check_rec tree 0 (replicate (length tree) False)")
    case (Inl e)
    with check_rec_error[OF Inl] check_rec_in_bounds[OF assms(2), of 0 "replicate (length tree) False"]
      assms(1)
    have "e = CycleInTree" by auto
    with Inl r assms(1) show ?thesis by (simp add: check_def)
  next
    case (Inr v)
    with r assms(1) show ?thesis by (simp add: check_def)
  qed
qed

section \<open>The calls of the walk and the failures of the validation\<close>

lemma stops_atD:
  assumes "stops_at tree index marked j marked'" "marks visited = marked"
    "length visited = length tree"
  shows "length tree \<le> j \<Longrightarrow> check_rec tree index visited = Inl OutOfBounds"
    and "j < length tree \<Longrightarrow> 0 \<le> sint (feature (tree ! j)) \<Longrightarrow> j \<in> marked' \<Longrightarrow>
         check_rec tree index visited = Inl CycleInTree"
  using assms by (simp_all add: stops_at_def)

lemma stops_atI:
  assumes "\<And>visited. marks visited = marked \<Longrightarrow> length visited = length tree \<Longrightarrow>
             length tree \<le> j \<Longrightarrow> check_rec tree index visited = Inl OutOfBounds"
    and "\<And>visited. marks visited = marked \<Longrightarrow> length visited = length tree \<Longrightarrow>
             j < length tree \<Longrightarrow> 0 \<le> sint (feature (tree ! j)) \<Longrightarrow> j \<in> marked' \<Longrightarrow>
             check_rec tree index visited = Inl CycleInTree"
  shows "stops_at tree index marked j marked'"
  using assms unfolding stops_at_def by blast

lemma stops_at_step:
  assumes "stops_at tree child marked0 j marked'"
    and "\<And>visited e. marks visited = marked \<Longrightarrow> length visited = length tree \<Longrightarrow>
           \<exists>v0. marks v0 = marked0 \<and> length v0 = length tree
             \<and> (check_rec tree child v0 = Inl e \<longrightarrow> check_rec tree index visited = Inl e)"
  shows "stops_at tree index marked j marked'"
proof (rule stops_atI)
  fix visited assume m: "marks visited = marked" "length visited = length tree"
    and j: "length tree \<le> j"
  from assms(2)[OF m, of OutOfBounds] obtain v0 where v0: "marks v0 = marked0"
    "length v0 = length tree"
    "check_rec tree child v0 = Inl OutOfBounds \<longrightarrow> check_rec tree index visited = Inl OutOfBounds"
    by blast
  from stops_atD(1)[OF assms(1) v0(1,2) j] v0(3)
  show "check_rec tree index visited = Inl OutOfBounds" by simp
next
  fix visited assume m: "marks visited = marked" "length visited = length tree"
    and j: "j < length tree" "0 \<le> sint (feature (tree ! j))" "j \<in> marked'"
  from assms(2)[OF m, of CycleInTree] obtain v0 where v0: "marks v0 = marked0"
    "length v0 = length tree"
    "check_rec tree child v0 = Inl CycleInTree \<longrightarrow> check_rec tree index visited = Inl CycleInTree"
    by blast
  from stops_atD(2)[OF assms(1) v0(1,2) j] v0(3)
  show "check_rec tree index visited = Inl CycleInTree" by simp
qed

lemma walk_reaches_stops_at:
  "walk_reaches tree index marked j marked' \<Longrightarrow> stops_at tree index marked j marked'"
proof (induction rule: walk_reaches.induct)
  case (here index marked)
  show ?case
  proof (rule stops_atI)
    fix visited assume "length tree \<le> index"
    then show "check_rec tree index visited = Inl OutOfBounds" by (rule check_rec_past_end)
  next
    fix visited assume "marks visited = marked" "length visited = length tree"
      "index < length tree" "0 \<le> sint (feature (tree ! index))" "index \<in> marked"
    then show "check_rec tree index visited = Inl CycleInTree"
      by (auto simp: marks_def check_rec_marked)
  qed
next
  case (via_yes index marked j marked')
  let ?n = "tree ! index"
  have inb: "index < length tree" and dec: "0 \<le> sint (feature ?n)"
    and nm: "index \<notin> marked" by fact+
  have ey: "stops_at tree (unat (yes ?n)) (insert index marked) j marked'" by fact
  show ?case
  proof (rule stops_at_step[OF ey])
    fix visited e assume m: "marks visited = marked" and l: "length visited = length tree"
    from inb l have iv: "index < length visited" by simp
    from nm m iv have un: "\<not> visited ! index" by (rule marks_unmarked)
    have "marks (visited[index := True]) = insert index marked"
      "length (visited[index := True]) = length tree"
      using m l iv by (simp_all add: marks_mark)
    moreover have "check_rec tree (unat (yes ?n)) (visited[index := True]) = Inl e
        \<longrightarrow> check_rec tree index visited = Inl e"
      unfolding check_rec_decision[OF inb dec iv un] by simp
    ultimately show "\<exists>v0. marks v0 = insert index marked \<and> length v0 = length tree
        \<and> (check_rec tree (unat (yes ?n)) v0 = Inl e \<longrightarrow> check_rec tree index visited = Inl e)"
      by blast
  qed
next
  case (via_no index marked marked1 j marked')
  let ?n = "tree ! index"
  have inb: "index < length tree" and dec: "0 \<le> sint (feature ?n)"
    and nm: "index \<notin> marked" by fact+
  have wy: "spec_walk tree (unat (yes ?n)) (insert index marked) (Completed marked1)" by fact
  have ne: "no ?n \<noteq> yes ?n" by fact
  have en: "stops_at tree (unat (no ?n)) marked1 j marked'" by fact
  show ?case
  proof (rule stops_at_step[OF en])
    fix visited e assume m: "marks visited = marked" and l: "length visited = length tree"
    from inb l have iv: "index < length visited" by simp
    from nm m iv have un: "\<not> visited ! index" by (rule marks_unmarked)
    from refinesD_Completed[OF spec_walk_refines[OF wy], of "visited[index := True]"] m l iv
    obtain v1 where v1: "check_rec tree (unat (yes ?n)) (visited[index := True]) = Inr v1"
      "marks v1 = marked1" "length v1 = length tree"
      by (auto simp: marks_mark)
    have "check_rec tree (unat (no ?n)) v1 = Inl e \<longrightarrow> check_rec tree index visited = Inl e"
      unfolding check_rec_decision[OF inb dec iv un] using v1(1) ne by simp
    with v1(2,3) show "\<exists>v0. marks v0 = marked1 \<and> length v0 = length tree
        \<and> (check_rec tree (unat (no ?n)) v0 = Inl e \<longrightarrow> check_rec tree index visited = Inl e)"
      by blast
  qed
next
  case (via_missing index marked marked1 marked2 j marked')
  let ?n = "tree ! index"
  have inb: "index < length tree" and dec: "0 \<le> sint (feature ?n)"
    and nm: "index \<notin> marked" by fact+
  have wy: "spec_walk tree (unat (yes ?n)) (insert index marked) (Completed marked1)" by fact
  have dn: "(no ?n \<noteq> yes ?n \<and> spec_walk tree (unat (no ?n)) marked1 (Completed marked2))
            \<or> (no ?n = yes ?n \<and> marked2 = marked1)" by fact
  have my: "missing ?n \<noteq> yes ?n" and mn: "missing ?n \<noteq> no ?n" by fact+
  have em: "stops_at tree (unat (missing ?n)) marked2 j marked'" by fact
  show ?case
  proof (rule stops_at_step[OF em])
    fix visited e assume m: "marks visited = marked" and l: "length visited = length tree"
    from inb l have iv: "index < length visited" by simp
    from nm m iv have un: "\<not> visited ! index" by (rule marks_unmarked)
    from refinesD_Completed[OF spec_walk_refines[OF wy], of "visited[index := True]"] m l iv
    obtain v1 where v1: "check_rec tree (unat (yes ?n)) (visited[index := True]) = Inr v1"
      "marks v1 = marked1" "length v1 = length tree"
      by (auto simp: marks_mark)
    have "\<exists>v2. (if no ?n \<noteq> yes ?n then check_rec tree (unat (no ?n)) v1 else Inr v1) = Inr v2
        \<and> marks v2 = marked2 \<and> length v2 = length tree"
    proof (cases "no ?n \<noteq> yes ?n")
      case True
      with dn have "spec_walk tree (unat (no ?n)) marked1 (Completed marked2)" by simp
      from refinesD_Completed[OF spec_walk_refines[OF this] v1(2,3)] True show ?thesis by simp
    next
      case False
      with dn v1 show ?thesis by simp
    qed
    then obtain v2 where v2:
      "(if no ?n \<noteq> yes ?n then check_rec tree (unat (no ?n)) v1 else Inr v1) = Inr v2"
      "marks v2 = marked2" "length v2 = length tree" by blast
    have "check_rec tree (unat (missing ?n)) v2 = Inl e \<longrightarrow> check_rec tree index visited = Inl e"
      unfolding check_rec_decision[OF inb dec iv un] using v1(1) v2(1) my mn by simp
    with v2(2,3) show "\<exists>v0. marks v0 = marked2 \<and> length v0 = length tree
        \<and> (check_rec tree (unat (missing ?n)) v0 = Inl e \<longrightarrow> check_rec tree index visited = Inl e)"
      by blast
  qed
qed


lemma check_rec_walk_reaches:
  "length visited = length tree \<Longrightarrow> check_rec tree index visited = Inl e \<Longrightarrow>
   \<exists>j marked'. walk_reaches tree index (marks visited) j marked' \<and> failure_at tree e j marked'"
proof (induction tree index visited rule: check_rec.induct)
  case (1 tree index visited)
  let ?n = "tree ! index"
  let ?v0 = "visited[index := True]"
  have len0: "length ?v0 = length tree" using 1(4) by simp
  show ?case
  proof (cases "index < length tree")
    case False
    with 1(5) have "e = OutOfBounds" by (simp add: check_rec_past_end)
    with False have "failure_at tree e index (marks visited)" by (simp add: failure_at_def)
    with walk_reaches.here show ?thesis by blast
  next
    case inb: True
    then have iv: "index < length visited" using 1(4) by simp
    have nb: "\<not> length tree \<le> index" "\<not> length visited \<le> index"
      using inb iv by simp_all
    have dec: "0 \<le> sint (feature ?n)"
    proof (rule ccontr)
      assume "\<not> ?thesis"
      then have "sint (feature ?n) < 0" by simp
      with inb 1(5) show False by (simp add: check_rec_leaf)
    qed
    show ?thesis
    proof (cases "visited ! index")
      case True
      with inb dec iv 1(5) have "e = CycleInTree" by (simp add: check_rec_marked)
      moreover from True iv have "index \<in> marks visited" by (simp add: marks_mem)
      ultimately have "failure_at tree e index (marks visited)"
        using inb dec by (simp add: failure_at_def)
      with walk_reaches.here show ?thesis by blast
    next
      case unmarked: False
      then have nm: "index \<notin> marks visited" using iv by (simp add: marks_mem)
      have m0: "marks ?v0 = insert index (marks visited)" using iv by (rule marks_mark)
      note ih1 = 1(1)[OF nb(1) refl dec nb(2) unmarked len0, unfolded m0]
      note ih2 = 1(2)[OF nb(1) refl dec nb(2) unmarked]
      note ih3 = 1(3)[OF nb(1) refl dec nb(2) unmarked]
      note unf = check_rec_decision[OF inb dec iv unmarked]
      show ?thesis
      proof (cases "check_rec tree (unat (yes ?n)) ?v0")
        case (Inl e')
        with 1(5) have "check_rec tree (unat (yes ?n)) ?v0 = Inl e"
          unfolding unf by simp
        from ih1[OF this] obtain j marked' where
          "walk_reaches tree (unat (yes ?n)) (insert index (marks visited)) j marked'"
          "failure_at tree e j marked'" by blast
        with walk_reaches.via_yes[OF inb dec nm] show ?thesis by blast
      next
        case y: (Inr v1)
        have l1: "length v1 = length tree" using check_rec_length[OF y] len0 by simp
        from y check_rec_spec_walk[OF len0, of "unat (yes ?n)"]
        have w1: "spec_walk tree (unat (yes ?n)) (insert index (marks visited))
            (Completed (marks v1))" unfolding m0 by simp
        show ?thesis
        proof (cases "if no ?n \<noteq> yes ?n then check_rec tree (unat (no ?n)) v1 else Inr v1")
          case (Inl e')
          then have ne: "no ?n \<noteq> yes ?n" and c: "check_rec tree (unat (no ?n)) v1 = Inl e'"
            by (auto split: if_splits)
          from y Inl 1(5) have "e' = e" unfolding unf by simp
          with c ih2[OF y ne l1] obtain j marked' where
            "walk_reaches tree (unat (no ?n)) (marks v1) j marked'"
            "failure_at tree e j marked'" by blast
          with walk_reaches.via_no[OF inb dec nm w1 ne] show ?thesis by blast
        next
          case n: (Inr v2)
          have l2: "length v2 = length tree"
            using n l1 check_rec_length[of tree "unat (no ?n)" v1 v2]
            by (auto split: if_splits)
          have w2: "(no ?n \<noteq> yes ?n
                \<and> spec_walk tree (unat (no ?n)) (marks v1) (Completed (marks v2)))
              \<or> (no ?n = yes ?n \<and> marks v2 = marks v1)"
          proof (cases "no ?n \<noteq> yes ?n")
            case True
            with n have "check_rec tree (unat (no ?n)) v1 = Inr v2" by simp
            with check_rec_spec_walk[OF l1, of "unat (no ?n)"] True show ?thesis by simp
          next
            case False
            with n show ?thesis by simp
          qed
          have mc: "missing ?n \<noteq> yes ?n \<and> missing ?n \<noteq> no ?n"
          proof (rule ccontr)
            assume "\<not> ?thesis"
            with y n 1(5) show False unfolding unf by auto
          qed
          with y n 1(5) have "check_rec tree (unat (missing ?n)) v2 = Inl e"
            unfolding unf by simp
          from ih3[OF y n mc l2 this] obtain j marked' where
            "walk_reaches tree (unat (missing ?n)) (marks v2) j marked'"
            "failure_at tree e j marked'" by blast
          with walk_reaches.via_missing[OF inb dec nm w1 w2] mc show ?thesis by blast
        qed
      qed
    qed
  qed
qed

lemma walk_reaches_child:
  "walk_reaches tree index marked j marked' \<Longrightarrow>
   j = index \<or> (\<exists>node\<in>set tree. 0 \<le> sint (feature node) \<and>
      (j = unat (yes node) \<or> j = unat (no node) \<or> j = unat (missing node)))"
proof (induction rule: walk_reaches.induct)
  case (here index marked)
  then show ?case by simp
next
  case (via_yes index marked j marked')
  then have "tree ! index \<in> set tree" by simp
  with via_yes show ?case by blast
next
  case (via_no index marked marked1 j marked')
  then have "tree ! index \<in> set tree" by simp
  with via_no show ?case by blast
next
  case (via_missing index marked marked1 marked2 j marked')
  then have "tree ! index \<in> set tree" by simp
  with via_missing show ?case by blast
qed

lemma check_OutOfBounds_iff:
  assumes "tree \<noteq> []" "check_range tree (length tree) = Inr ()"
  shows "check tree = Inl OutOfBounds \<longleftrightarrow>
         (\<exists>marked'. walk_reaches tree 0 {} (length tree) marked')"
proof
  assume "check tree = Inl OutOfBounds"
  then have "check_rec tree 0 (replicate (length tree) False) = Inl OutOfBounds"
    by (simp add: check_OutOfBounds)
  from check_rec_walk_reaches[OF _ this] obtain j marked' where
    j: "length tree \<le> j" "walk_reaches tree 0 {} j marked'"
    by (auto simp: failure_at_def)
  from walk_reaches_child[OF j(2)] assms(1) j(1) obtain node where
    "node \<in> set tree" "0 \<le> sint (feature node)"
    "j = unat (yes node) \<or> j = unat (no node) \<or> j = unat (missing node)"
    by auto
  with assms(2) have "j \<le> length tree"
    unfolding check_range_Inr by auto
  with j show "\<exists>marked'. walk_reaches tree 0 {} (length tree) marked'" by auto
next
  assume "\<exists>marked'. walk_reaches tree 0 {} (length tree) marked'"
  then obtain marked' where "walk_reaches tree 0 {} (length tree) marked'" ..
  from stops_atD(1)[OF walk_reaches_stops_at[OF this], of "replicate (length tree) False"]
  have "check_rec tree 0 (replicate (length tree) False) = Inl OutOfBounds" by simp
  with assms show "check tree = Inl OutOfBounds" by (simp add: check_OutOfBounds)
qed

lemma check_Cycle_iff:
  "check tree = Inl CycleInTree \<longleftrightarrow>
     tree \<noteq> [] \<and> check_range tree (length tree) = Inr ()
     \<and> (\<exists>j marked'. walk_reaches tree 0 {} j marked' \<and> j < length tree
            \<and> 0 \<le> sint (feature (tree ! j)) \<and> j \<in> marked')"
proof -
  have "check_rec tree 0 (replicate (length tree) False) = Inl CycleInTree \<longleftrightarrow>
     (\<exists>j marked'. walk_reaches tree 0 {} j marked' \<and> j < length tree
            \<and> 0 \<le> sint (feature (tree ! j)) \<and> j \<in> marked')"
  proof
    assume "check_rec tree 0 (replicate (length tree) False) = Inl CycleInTree"
    from check_rec_walk_reaches[OF _ this]
    show "\<exists>j marked'. walk_reaches tree 0 {} j marked' \<and> j < length tree
            \<and> 0 \<le> sint (feature (tree ! j)) \<and> j \<in> marked'"
      by (auto simp: failure_at_def)
  next
    assume "\<exists>j marked'. walk_reaches tree 0 {} j marked' \<and> j < length tree
            \<and> 0 \<le> sint (feature (tree ! j)) \<and> j \<in> marked'"
    then obtain j marked' where w: "walk_reaches tree 0 {} j marked'"
      and j: "j < length tree" "0 \<le> sint (feature (tree ! j))" "j \<in> marked'" by blast
    from stops_atD(2)[OF walk_reaches_stops_at[OF w] _ _ j, of "replicate (length tree) False"]
    show "check_rec tree 0 (replicate (length tree) False) = Inl CycleInTree" by simp
  qed
  then show ?thesis by (simp add: check_Cycle)
qed

section \<open>The outcomes of the validation\<close>

lemma check_Inr_iff:
  "check tree = Inr () \<longleftrightarrow>
     tree \<noteq> [] \<and> check_range tree (length tree) = Inr ()
     \<and> (\<exists>marked'. spec_walk tree 0 {} (Completed marked'))"
proof (cases "tree \<noteq> [] \<and> check_range tree (length tree) = Inr ()")
  case False
  then show ?thesis by (auto simp: check_def split: sum.splits)
next
  case True
  let ?v = "replicate (length tree) False"
  have "(\<exists>visited'. check_rec tree 0 ?v = Inr visited')
        \<longleftrightarrow> (\<exists>marked'. spec_walk tree 0 {} (Completed marked'))"
  proof
    assume "\<exists>visited'. check_rec tree 0 ?v = Inr visited'"
    then obtain visited' where "check_rec tree 0 ?v = Inr visited'" ..
    with check_rec_spec_walk[of ?v tree 0]
    have "spec_walk tree 0 {} (Completed (marks visited'))" by simp
    then show "\<exists>marked'. spec_walk tree 0 {} (Completed marked')" ..
  next
    assume "\<exists>marked'. spec_walk tree 0 {} (Completed marked')"
    then obtain marked' where "spec_walk tree 0 {} (Completed marked')" ..
    from refinesD_Completed[OF spec_walk_refines[OF this], of ?v]
    show "\<exists>visited'. check_rec tree 0 ?v = Inr visited'" by auto
  qed
  with True show ?thesis by (auto simp: check_def split: sum.splits)
qed

lemma check_Cycle_spec_walk:
  "check tree = Inl CycleInTree \<longleftrightarrow>
      tree \<noteq> [] \<and> check_range tree (length tree) = Inr ()
      \<and> spec_walk tree 0 {} CycleDetected"
proof -
  let ?v = "replicate (length tree) False"
  have "check_rec tree 0 ?v = Inl CycleInTree \<longleftrightarrow> spec_walk tree 0 {} CycleDetected"
  proof
    assume "check_rec tree 0 ?v = Inl CycleInTree"
    with check_rec_spec_walk[of ?v tree 0] show "spec_walk tree 0 {} CycleDetected"
      by simp
  next
    assume "spec_walk tree 0 {} CycleDetected"
    from refinesD_Cycle[OF spec_walk_refines[OF this], of ?v]
    show "check_rec tree 0 ?v = Inl CycleInTree" by simp
  qed
  then show ?thesis by (simp add: check_Cycle)
qed

lemma check_cases:
  assumes "tree \<noteq> []" "check_range tree (length tree) = Inr ()"
  shows "check tree = Inr () \<or> check tree = Inl CycleInTree \<or> check tree = Inl OutOfBounds"
proof (cases "check_rec tree 0 (replicate (length tree) False)")
  case (Inl e)
  with check_rec_error[OF Inl] assms show ?thesis by (auto simp: check_def)
next
  case (Inr v)
  with assms show ?thesis by (simp add: check_def)
qed

lemma check_OutOfBounds_spec_walk:
  "check tree = Inl OutOfBounds \<longleftrightarrow>
     tree \<noteq> [] \<and> check_range tree (length tree) = Inr ()
     \<and> \<not> (\<exists>r. spec_walk tree 0 {} r)"
proof (cases "tree \<noteq> [] \<and> check_range tree (length tree) = Inr ()")
  case False
  then show ?thesis by (auto simp: check_OutOfBounds)
next
  case True
  have "(\<exists>r. spec_walk tree 0 {} r) \<longleftrightarrow> check tree = Inr () \<or> check tree = Inl CycleInTree"
  proof
    assume "\<exists>r. spec_walk tree 0 {} r"
    then obtain r where r: "spec_walk tree 0 {} r" ..
    show "check tree = Inr () \<or> check tree = Inl CycleInTree"
    proof (cases r)
      case (Completed marked')
      with r True show ?thesis by (auto simp: check_Inr_iff)
    next
      case CycleDetected
      with r True show ?thesis by (simp add: check_Cycle_spec_walk)
    qed
  next
    assume "check tree = Inr () \<or> check tree = Inl CycleInTree"
    then show "\<exists>r. spec_walk tree 0 {} r"
      unfolding check_Inr_iff check_Cycle_spec_walk by blast
  qed
  with check_cases[of tree] True show ?thesis by auto
qed

lemma check_Inr_predict_tree:
  assumes "check tree = Inr ()"
  shows "predict_tree data tree \<noteq> Some (Inl OutOfBounds)"
  using checked_tree_reaches_leaf[OF assms, of data]
  by (auto simp: reaches_leaf_def predict_tree_def)

lemma check_in_bounds:
  assumes "in_bounds tree"
  shows "check tree \<noteq> Inl OutOfBounds"
proof
  assume oob: "check tree = Inl OutOfBounds"
  then have "tree \<noteq> []" by (simp add: check_OutOfBounds)
  with oob assms check_rec_in_bounds[of tree 0 "replicate (length tree) False"]
  show False by (simp add: check_OutOfBounds)
qed

lemma check_OutOfBounds_child:
  assumes oob: "check tree = Inl OutOfBounds"
  shows "\<exists>node\<in>set tree. 0 \<le> sint (feature node) \<and>
           (unat (yes node) = length tree \<or> unat (no node) = length tree
            \<or> unat (missing node) = length tree)"
proof (rule ccontr)
  assume none: "\<not> ?thesis"
  from oob have r: "check_range tree (length tree) = Inr ()"
    by (simp add: check_OutOfBounds)
  from r none have "in_bounds tree"
    unfolding in_bounds_def check_range_Inr by (metis le_neq_implies_less)
  from check_in_bounds[OF this] oob show False by simp
qed

section \<open>Out-of-bounds accesses of the validation\<close>

text \<open>
  Claim C10, as amended. The cycle check indexes the tree and \<open>visited\<close> without a bounds
  guard: a call at an index past the end is an out-of-bounds access. The validation of a
  tree performs one exactly when the tree is not empty, passes the range check, and the
  walk from index 0 with nothing marked makes a call at the index \<open>tree.size()\<close>; that is,
  exactly when the walk of the specification from index 0 has no outcome. A tree that is
  not empty, passes the range check and does not make the validation index out of bounds
  is accepted or rejected with the cycle error. The validation indexes out of bounds only
  if some decision node has a child index equal to \<open>tree.size()\<close>. For a tree whose
  decision nodes have all child indices strictly less than \<open>tree.size()\<close> the validation
  does not index out of bounds, and neither does the evaluation when the tree has a root;
  the evaluation of a tree that the validation has accepted does not index out of bounds.
\<close>

theorem check_out_of_bounds:
  "(length tree \<le> index \<longrightarrow> check_rec tree index visited = Inl OutOfBounds)
   \<and> (check tree = Inl OutOfBounds \<longleftrightarrow>
        tree \<noteq> [] \<and> check_range tree (length tree) = Inr ()
        \<and> (\<exists>marked'. walk_reaches tree 0 {} (length tree) marked'))
   \<and> (check tree = Inl OutOfBounds \<longleftrightarrow>
        tree \<noteq> [] \<and> check_range tree (length tree) = Inr ()
        \<and> \<not> (\<exists>r. spec_walk tree 0 {} r))
   \<and> (tree \<noteq> [] \<and> check_range tree (length tree) = Inr ()
        \<and> check tree \<noteq> Inl OutOfBounds \<longrightarrow>
        check tree = Inr () \<or> check tree = Inl CycleInTree)
   \<and> (check tree = Inl OutOfBounds \<longrightarrow>
        (\<exists>node\<in>set tree. 0 \<le> sint (feature node) \<and>
           (unat (yes node) = length tree \<or> unat (no node) = length tree
            \<or> unat (missing node) = length tree)))
   \<and> (in_bounds tree \<longrightarrow> check tree \<noteq> Inl OutOfBounds)
   \<and> (tree \<noteq> [] \<and> in_bounds tree \<longrightarrow> predict_tree data tree \<noteq> Some (Inl OutOfBounds))
   \<and> (check tree = Inr () \<longrightarrow> predict_tree data tree \<noteq> Some (Inl OutOfBounds))"
proof -
  have a: "length tree \<le> index \<longrightarrow> check_rec tree index visited = Inl OutOfBounds"
    by (simp add: check_rec_past_end)
  have b: "check tree = Inl OutOfBounds \<longleftrightarrow>
        tree \<noteq> [] \<and> check_range tree (length tree) = Inr ()
        \<and> (\<exists>marked'. walk_reaches tree 0 {} (length tree) marked')"
    using check_OutOfBounds_iff[of tree] by (auto simp: check_OutOfBounds)
  have c: "tree \<noteq> [] \<and> check_range tree (length tree) = Inr ()
        \<and> check tree \<noteq> Inl OutOfBounds \<longrightarrow>
        check tree = Inr () \<or> check tree = Inl CycleInTree"
    using check_cases[of tree] by blast
  have d: "check tree = Inl OutOfBounds \<longrightarrow>
        (\<exists>node\<in>set tree. 0 \<le> sint (feature node) \<and>
           (unat (yes node) = length tree \<or> unat (no node) = length tree
            \<or> unat (missing node) = length tree))"
    using check_OutOfBounds_child[of tree] by blast
  have e: "in_bounds tree \<longrightarrow> check tree \<noteq> Inl OutOfBounds"
    using check_in_bounds[of tree] by blast
  have f: "tree \<noteq> [] \<and> in_bounds tree \<longrightarrow> predict_tree data tree \<noteq> Some (Inl OutOfBounds)"
    using predict_tree_in_bounds[of tree data] by blast
  have g: "check tree = Inr () \<longrightarrow> predict_tree data tree \<noteq> Some (Inl OutOfBounds)"
    using check_Inr_predict_tree[of tree data] by blast
  from a b check_OutOfBounds_spec_walk[of tree] c d e f g show ?thesis
    by (intro conjI)
qed

text \<open>
  In the tree of a root and one leaf whose root has the \<open>yes\<close> index 1 and the \<open>no\<close> index
  2, the size of the tree, the walk completes the leaf and then makes a call at 2: the
  validation indexes out of bounds, and the walk of the specification has no outcome. A
  root with two leaves is accepted, and its evaluation stays in bounds.
\<close>

theorem check_out_of_bounds_witness:
  "check_rec [\<lparr>node_value = Fin 0, feature = 0, yes = 1, no = 2, missing = 2\<rparr>,
              \<lparr>node_value = Fin 1, feature = - 1, yes = 0, no = 0, missing = 0\<rparr>] 2 [True, False]
     = Inl OutOfBounds
   \<and> walk_reaches [\<lparr>node_value = Fin 0, feature = 0, yes = 1, no = 2, missing = 2\<rparr>,
                   \<lparr>node_value = Fin 1, feature = - 1, yes = 0, no = 0, missing = 0\<rparr>] 0 {} 2 {0}
   \<and> check [\<lparr>node_value = Fin 0, feature = 0, yes = 1, no = 2, missing = 2\<rparr>,
            \<lparr>node_value = Fin 1, feature = - 1, yes = 0, no = 0, missing = 0\<rparr>] = Inl OutOfBounds
   \<and> \<not> (\<exists>r. spec_walk [\<lparr>node_value = Fin 0, feature = 0, yes = 1, no = 2, missing = 2\<rparr>,
            \<lparr>node_value = Fin 1, feature = - 1, yes = 0, no = 0, missing = 0\<rparr>] 0 {} r)
   \<and> check [\<lparr>node_value = Fin 5, feature = 0, yes = 1, no = 2, missing = 1\<rparr>,
            \<lparr>node_value = Fin 10, feature = - 1, yes = 0, no = 0, missing = 0\<rparr>,
            \<lparr>node_value = Fin 20, feature = - 1, yes = 0, no = 0, missing = 0\<rparr>] = Inr ()
   \<and> predict_tree [] [\<lparr>node_value = Fin 5, feature = 0, yes = 1, no = 2, missing = 1\<rparr>,
            \<lparr>node_value = Fin 10, feature = - 1, yes = 0, no = 0, missing = 0\<rparr>,
            \<lparr>node_value = Fin 20, feature = - 1, yes = 0, no = 0, missing = 0\<rparr>]
       \<noteq> Some (Inl OutOfBounds)"
proof -
  let ?t = "[\<lparr>node_value = Fin 0, feature = 0, yes = 1, no = 2, missing = 2\<rparr>,
             \<lparr>node_value = Fin 1, feature = - 1, yes = 0, no = 0, missing = 0\<rparr>]"
  let ?u = "[\<lparr>node_value = Fin 5, feature = 0, yes = 1, no = 2, missing = 1\<rparr>,
            \<lparr>node_value = Fin 10, feature = - 1, yes = 0, no = 0, missing = 0\<rparr>,
            \<lparr>node_value = Fin 20, feature = - 1, yes = 0, no = 0, missing = 0\<rparr>]"
  have past: "check_rec ?t 2 [True, False] = Inl OutOfBounds"
    using check_out_of_bounds[of ?t 2 "[True, False]"] by simp
  have s: "spec_walk ?t 1 {0} (Completed {0})"
    by (rule spec_walk.leaf) simp_all
  have h: "walk_reaches ?t 2 {0} 2 {0}"
    by (rule walk_reaches.here)
  have w: "walk_reaches ?t 0 {} 2 {0}"
    using walk_reaches.via_no[where tree = ?t and index = 0 and marked = "{}"
        and ?marked1.0 = "{0}" and j = 2 and marked' = "{0}"] s h
    by simp
  then have "\<exists>marked'. walk_reaches ?t 0 {} (length ?t) marked'"
    by (auto simp: numeral_2_eq_2)
  moreover have "?t \<noteq> []" "check_range ?t (length ?t) = Inr ()" by simp_all
  ultimately have oob: "check ?t = Inl OutOfBounds"
    using check_out_of_bounds[of ?t 0 "[]" "[]"] by blast
  with check_out_of_bounds[of ?t 0 "[]" "[]"] have none: "\<not> (\<exists>r. spec_walk ?t 0 {} r)"
    by blast
  have "in_bounds ?u" by (simp add: in_bounds_def)
  with check_out_of_bounds[of ?u 0 "[]" "[]"]
  have nb: "check ?u \<noteq> Inl OutOfBounds" "predict_tree [] ?u \<noteq> Some (Inl OutOfBounds)"
    by blast+
  have "?u \<noteq> []" "check_range ?u (length ?u) = Inr ()" by simp_all
  with check_out_of_bounds[of ?u 0 "[]" "[]"] nb(1)
  have "check ?u = Inr () \<or> check ?u = Inl CycleInTree" by blast
  moreover have "check ?u \<noteq> Inl CycleInTree"
    by (simp add: check_def check_rec.simps)
  ultimately have acc: "check ?u = Inr ()" by simp
  from past w oob none acc nb(2) show ?thesis by (intro conjI)
qed

text \<open>
  Claim C10 as stated fails. The second node of the first tree is a decision node whose
  \<open>yes\<close> index is 2, the size of the tree, but the root is a leaf and the walk never
  reaches that node: the tree is accepted. In the second tree the \<open>no\<close> index of the root
  is 1, the size of the tree, but the walk meets the marked root at the \<open>yes\<close> index 0
  first: the tree is rejected with the cycle error.
\<close>

theorem check_out_of_bounds_counterexample:
  "0 \<le> sint (feature ([\<lparr>node_value = Fin 1, feature = - 1, yes = 0, no = 0, missing = 0\<rparr>,
               \<lparr>node_value = Fin 0, feature = 0, yes = 2, no = 2, missing = 2\<rparr>] ! 1))
   \<and> unat (yes ([\<lparr>node_value = Fin 1, feature = - 1, yes = 0, no = 0, missing = 0\<rparr>,
               \<lparr>node_value = Fin 0, feature = 0, yes = 2, no = 2, missing = 2\<rparr>] ! 1))
     = length [\<lparr>node_value = Fin 1, feature = - 1, yes = 0, no = 0, missing = 0\<rparr>,
               \<lparr>node_value = Fin 0, feature = 0, yes = 2, no = 2, missing = 2\<rparr>]
   \<and> check [\<lparr>node_value = Fin 1, feature = - 1, yes = 0, no = 0, missing = 0\<rparr>,
            \<lparr>node_value = Fin 0, feature = 0, yes = 2, no = 2, missing = 2\<rparr>] = Inr ()
   \<and> 0 \<le> sint (feature ([\<lparr>node_value = Fin 0, feature = 0, yes = 0, no = 1, missing = 1\<rparr>] ! 0))
   \<and> unat (no ([\<lparr>node_value = Fin 0, feature = 0, yes = 0, no = 1, missing = 1\<rparr>] ! 0))
     = length [\<lparr>node_value = Fin 0, feature = 0, yes = 0, no = 1, missing = 1\<rparr>]
   \<and> check [\<lparr>node_value = Fin 0, feature = 0, yes = 0, no = 1, missing = 1\<rparr>]
       = Inl CycleInTree"
  by (simp add: check_def check_rec.simps)

section \<open>The cycle error\<close>

text \<open>
  Claim C4, as amended. \<open>check\<close> throws "cycle in tree" if and only if the tree is not
  empty, passes the range check, and the walk of the specification from index 0 with
  nothing marked fails; that is, if and only if the walk makes a call at a decision node
  that is marked at that moment. \<open>check\<close> accepts a tree if and only if the tree is not
  empty, passes the range check, and the walk completes. A leaf ends the recursion and
  leaves \<open>visited\<close> as it is, whatever is marked. In a tree that \<open>check\<close> accepts, no index
  that can be reached from index 0 along child edges lies on a cycle of child edges: a
  decision node that can be reached from index 0 and refers to itself, or two that refer
  to each other, make \<open>check\<close> reject the tree, with the cycle error when all child
  indices are strictly less than \<open>tree.size()\<close>.
\<close>

theorem check_cycle:
  "(check tree = Inl CycleInTree \<longleftrightarrow>
      tree \<noteq> [] \<and> check_range tree (length tree) = Inr ()
      \<and> spec_walk tree 0 {} CycleDetected)
   \<and> (check tree = Inl CycleInTree \<longleftrightarrow>
      tree \<noteq> [] \<and> check_range tree (length tree) = Inr ()
      \<and> (\<exists>j marked'. walk_reaches tree 0 {} j marked' \<and> j < length tree
            \<and> 0 \<le> sint (feature (tree ! j)) \<and> j \<in> marked'))
   \<and> (check tree = Inr () \<longleftrightarrow>
      tree \<noteq> [] \<and> check_range tree (length tree) = Inr ()
      \<and> (\<exists>marked'. spec_walk tree 0 {} (Completed marked')))
   \<and> (index < length tree \<and> sint (feature (tree ! index)) < 0 \<longrightarrow>
        check_rec tree index visited = Inr visited)
   \<and> (check tree = Inr () \<longrightarrow>
        (\<forall>j. (0, j) \<in> (child_edges tree)\<^sup>* \<longrightarrow> (j, j) \<notin> (child_edges tree)\<^sup>+))
   \<and> (in_bounds tree \<and> (0, j) \<in> (child_edges tree)\<^sup>*
        \<and> (j, j) \<in> (child_edges tree)\<^sup>+ \<longrightarrow> check tree = Inl CycleInTree)"
proof -
  let ?v = "replicate (length tree) False"
  have b: "index < length tree \<and> sint (feature (tree ! index)) < 0 \<longrightarrow>
        check_rec tree index visited = Inr visited"
    by (simp add: check_rec_leaf)
  have c: "\<forall>j. (0, j) \<in> (child_edges tree)\<^sup>* \<longrightarrow> (j, j) \<notin> (child_edges tree)\<^sup>+"
    if "check tree = Inr ()"
  proof -
    from that obtain visited' where "check_rec tree 0 ?v = Inr visited'"
      by (auto simp: check_def split: if_splits sum.splits)
    from check_rec_cycle_free[OF this] show ?thesis
      by (simp add: cycle_free_from_def)
  qed
  then have c': "check tree = Inr () \<longrightarrow>
        (\<forall>j. (0, j) \<in> (child_edges tree)\<^sup>* \<longrightarrow> (j, j) \<notin> (child_edges tree)\<^sup>+)" ..
  have d: "check tree = Inl CycleInTree"
    if "in_bounds tree" "(0, j) \<in> (child_edges tree)\<^sup>*" "(j, j) \<in> (child_edges tree)\<^sup>+"
  proof -
    have "tree \<noteq> []"
    proof
      assume "tree = []"
      then have "child_edges tree = {}" by (simp add: child_edges_def)
      with that(3) show False by simp
    qed
    from check_in_bounds_cases[OF this that(1)] c that(2,3) show ?thesis by blast
  qed
  then have d': "in_bounds tree \<and> (0, j) \<in> (child_edges tree)\<^sup>*
        \<and> (j, j) \<in> (child_edges tree)\<^sup>+ \<longrightarrow> check tree = Inl CycleInTree" by blast
  from check_Cycle_spec_walk[of tree] check_Cycle_iff[of tree] check_Inr_iff[of tree] b c' d'
  show ?thesis by (intro conjI)
qed

text \<open>
  A root that refers to itself and two nodes that refer to each other are rejected with
  the cycle error. Two decision nodes that share the leaf at index 2 are accepted; the
  leaf leaves \<open>visited\<close> unchanged whatever is marked, and the root of that tree lies on
  no cycle.
\<close>

theorem check_cycle_witness:
  "spec_walk [\<lparr>node_value = Fin 0, feature = 0, yes = 0, no = 0, missing = 0\<rparr>] 0 {} CycleDetected
   \<and> (\<exists>j marked'. walk_reaches [\<lparr>node_value = Fin 0, feature = 0, yes = 0, no = 0, missing = 0\<rparr>]
          0 {} j marked' \<and> j \<in> marked')
   \<and> check [\<lparr>node_value = Fin 0, feature = 0, yes = 0, no = 0, missing = 0\<rparr>] = Inl CycleInTree
   \<and> check [\<lparr>node_value = Fin 0, feature = 0, yes = 1, no = 1, missing = 1\<rparr>,
          \<lparr>node_value = Fin 0, feature = 1, yes = 0, no = 0, missing = 0\<rparr>] = Inl CycleInTree
   \<and> check [\<lparr>node_value = Fin 0, feature = 0, yes = 1, no = 2, missing = 1\<rparr>,
          \<lparr>node_value = Fin 0, feature = 1, yes = 2, no = 2, missing = 2\<rparr>,
          \<lparr>node_value = Fin 7, feature = - 1, yes = 0, no = 0, missing = 0\<rparr>] = Inr ()
   \<and> (\<exists>marked'. spec_walk [\<lparr>node_value = Fin 0, feature = 0, yes = 1, no = 2, missing = 1\<rparr>,
          \<lparr>node_value = Fin 0, feature = 1, yes = 2, no = 2, missing = 2\<rparr>,
          \<lparr>node_value = Fin 7, feature = - 1, yes = 0, no = 0, missing = 0\<rparr>] 0 {}
          (Completed marked'))
   \<and> check_rec [\<lparr>node_value = Fin 0, feature = 0, yes = 1, no = 2, missing = 1\<rparr>,
          \<lparr>node_value = Fin 0, feature = 1, yes = 2, no = 2, missing = 2\<rparr>,
          \<lparr>node_value = Fin 7, feature = - 1, yes = 0, no = 0, missing = 0\<rparr>] 2 [True, True, True] = Inr [True, True, True]
   \<and> (0, 0) \<notin> (child_edges [\<lparr>node_value = Fin 0, feature = 0, yes = 1, no = 2, missing = 1\<rparr>,
          \<lparr>node_value = Fin 0, feature = 1, yes = 2, no = 2, missing = 2\<rparr>,
          \<lparr>node_value = Fin 7, feature = - 1, yes = 0, no = 0, missing = 0\<rparr>])\<^sup>+"
proof -
  let ?s = "[\<lparr>node_value = Fin 0, feature = 0, yes = 0, no = 0, missing = 0\<rparr>]"
  let ?m = "[\<lparr>node_value = Fin 0, feature = 0, yes = 1, no = 1, missing = 1\<rparr>,
          \<lparr>node_value = Fin 0, feature = 1, yes = 0, no = 0, missing = 0\<rparr>]"
  let ?a = "[\<lparr>node_value = Fin 0, feature = 0, yes = 1, no = 2, missing = 1\<rparr>,
          \<lparr>node_value = Fin 0, feature = 1, yes = 2, no = 2, missing = 2\<rparr>,
          \<lparr>node_value = Fin 7, feature = - 1, yes = 0, no = 0, missing = 0\<rparr>]"
  have s: "check ?s = Inl CycleInTree"
    by (simp add: check_def check_rec.simps)
  with check_cycle[of ?s 0 "[]" 0]
  have w: "spec_walk ?s 0 {} CycleDetected"
    and w': "\<exists>j marked'. walk_reaches ?s 0 {} j marked' \<and> j \<in> marked'"
    by blast+
  have e01: "(0, 1) \<in> child_edges ?m" and e10: "(1, 0) \<in> child_edges ?m"
    by (simp_all add: child_edges_def)
  from e01 have "(0, 1) \<in> (child_edges ?m)\<^sup>+"
    by (rule r_into_trancl)
  from this e10 have c: "(0, 0) \<in> (child_edges ?m)\<^sup>+"
    by (rule trancl_into_trancl)
  have ib: "in_bounds ?m"
    by (simp add: in_bounds_def)
  have r0: "(0, 0) \<in> (child_edges ?m)\<^sup>*" by simp
  from check_cycle[of ?m 0 "[]" 0] ib c r0
  have m: "check ?m = Inl CycleInTree"
    by blast
  have a: "check ?a = Inr ()"
    by (simp add: check_def check_rec.simps)
  with check_cycle[of ?a 0 "[]" 0]
  have a': "\<exists>marked'. spec_walk ?a 0 {} (Completed marked')"
    by blast
  have "2 < length ?a \<and> sint (feature (?a ! 2)) < 0" by simp
  with check_cycle[of ?a 2 "[True, True, True]" 0]
  have l: "check_rec ?a 2 [True, True, True] = Inr [True, True, True]"
    by blast
  have r0': "(0, 0) \<in> (child_edges ?a)\<^sup>*" by simp
  from check_cycle[of ?a 0 "[]" 0] a r0'
  have f: "(0, 0) \<notin> (child_edges ?a)\<^sup>+"
    by blast
  from w w' s m a a' l f show ?thesis by (intro conjI)
qed

text \<open>
  Claim C4 as stated fails. In the first tree the root is a leaf and the decision node at
  index 1 has itself as \<open>yes\<close>, \<open>no\<close> and \<open>missing\<close> child; in the second the decision
  nodes at the indices 1 and 2 refer to each other. The walk from index 0 ends at the
  root and never reaches them: both trees are accepted.
\<close>

theorem check_cycle_counterexample:
  "0 \<le> sint (feature ([\<lparr>node_value = Fin 1, feature = - 1, yes = 0, no = 0, missing = 0\<rparr>,
               \<lparr>node_value = Fin 0, feature = 0, yes = 1, no = 1, missing = 1\<rparr>] ! 1))
   \<and> unat (yes ([\<lparr>node_value = Fin 1, feature = - 1, yes = 0, no = 0, missing = 0\<rparr>,
               \<lparr>node_value = Fin 0, feature = 0, yes = 1, no = 1, missing = 1\<rparr>] ! 1)) = 1
   \<and> (1, 1) \<in> (child_edges [\<lparr>node_value = Fin 1, feature = - 1, yes = 0, no = 0, missing = 0\<rparr>,
               \<lparr>node_value = Fin 0, feature = 0, yes = 1, no = 1, missing = 1\<rparr>])\<^sup>+
   \<and> check [\<lparr>node_value = Fin 1, feature = - 1, yes = 0, no = 0, missing = 0\<rparr>,
            \<lparr>node_value = Fin 0, feature = 0, yes = 1, no = 1, missing = 1\<rparr>] = Inr ()
   \<and> (1, 2) \<in> child_edges [\<lparr>node_value = Fin 1, feature = - 1, yes = 0, no = 0, missing = 0\<rparr>,
               \<lparr>node_value = Fin 0, feature = 0, yes = 2, no = 2, missing = 2\<rparr>,
               \<lparr>node_value = Fin 0, feature = 0, yes = 1, no = 1, missing = 1\<rparr>]
   \<and> (2, 1) \<in> child_edges [\<lparr>node_value = Fin 1, feature = - 1, yes = 0, no = 0, missing = 0\<rparr>,
               \<lparr>node_value = Fin 0, feature = 0, yes = 2, no = 2, missing = 2\<rparr>,
               \<lparr>node_value = Fin 0, feature = 0, yes = 1, no = 1, missing = 1\<rparr>]
   \<and> check [\<lparr>node_value = Fin 1, feature = - 1, yes = 0, no = 0, missing = 0\<rparr>,
            \<lparr>node_value = Fin 0, feature = 0, yes = 2, no = 2, missing = 2\<rparr>,
            \<lparr>node_value = Fin 0, feature = 0, yes = 1, no = 1, missing = 1\<rparr>] = Inr ()"
proof -
  have "(1, 1) \<in> child_edges [\<lparr>node_value = Fin 1, feature = - 1, yes = 0, no = 0, missing = 0\<rparr>,
               \<lparr>node_value = Fin 0, feature = 0, yes = 1, no = 1, missing = 1\<rparr>]"
    by (simp add: child_edges_def)
  then have "(1, 1) \<in> (child_edges [\<lparr>node_value = Fin 1, feature = - 1, yes = 0, no = 0, missing = 0\<rparr>,
               \<lparr>node_value = Fin 0, feature = 0, yes = 1, no = 1, missing = 1\<rparr>])\<^sup>+"
    by (rule r_into_trancl)
  then show ?thesis
    by (simp add: child_edges_def check_def check_rec.simps)
qed

end
